theory Spec2Isabelle
  imports
    Complex_Main
    "HOL-Library.Char_ord"
    "HOL-Library.List_Lexorder"
    "HOL-Library.Product_Lexorder"
    "HOL-Library.Multiset"
begin

section \<open>Python values (models.py: JsonType)\<close>

text \<open>
  A value as \<open>analyze\<close> receives it: the Python object that \<open>json.load\<close> returned.
  A \<open>dict\<close> is kept as the list of its items in insertion order; a Python dict holds
  each key once, which \<open>wf_pyval\<close> below states. \<open>POther\<close> stands for any Python
  object outside the JSON value space (a tuple, a set, bytes).
  The payload of a float is never inspected by the code.
\<close>

datatype pyval =
    PStr string
  | PBool bool
  | PInt int
  | PFloat real
  | PDict "(string \<times> pyval) list"
  | PList "pyval list"
  | PNone
  | POther

subsection \<open>isinstance tests\<close>

text \<open>In Python \<open>bool\<close> is a subclass of \<open>int\<close>: \<open>isinstance(True, int)\<close> holds.\<close>

fun isinstance_str :: "pyval \<Rightarrow> bool" where
  "isinstance_str (PStr s) = True"
| "isinstance_str v = False"

fun isinstance_bool :: "pyval \<Rightarrow> bool" where
  "isinstance_bool (PBool b) = True"
| "isinstance_bool v = False"

fun isinstance_int_float :: "pyval \<Rightarrow> bool" where
  "isinstance_int_float (PBool b) = True"
| "isinstance_int_float (PInt i) = True"
| "isinstance_int_float (PFloat f) = True"
| "isinstance_int_float v = False"

fun isinstance_dict :: "pyval \<Rightarrow> bool" where
  "isinstance_dict (PDict kvs) = True"
| "isinstance_dict v = False"

fun isinstance_list :: "pyval \<Rightarrow> bool" where
  "isinstance_list (PList xs) = True"
| "isinstance_list v = False"

subsection \<open>analyzer.py: \<open>_get_value_type\<close>\<close>

definition get_value_type :: "pyval \<Rightarrow> string" where
  "get_value_type v =
     (if isinstance_str v then ''string''
      else if isinstance_bool v then ''boolean''
      else if isinstance_int_float v then ''number''
      else if isinstance_dict v then ''object''
      else if isinstance_list v then ''array''
      else if v = PNone then ''null''
      else ''unknown'')"

section \<open>Result structures (models.py)\<close>

record TypeStatistics =
  strings :: int
  numbers :: int
  booleans :: int
  nulls :: int
  objects :: int
  arrays :: int
  total_values :: int

text \<open>
  \<open>StructureSummary\<close> is a TypedDict with the five keys \<open>type\<close>, \<open>keys\<close>,
  \<open>element_summary\<close>, \<open>element_types\<close>, \<open>is_empty\<close>; \<open>keys\<close> is a dict, kept as its
  item list in insertion order.
\<close>

datatype StructureSummary =
  Summary (stype: string)
          (keys: "(string \<times> StructureSummary) list option")
          (element_summary: "StructureSummary option")
          (element_types: "string list option")
          (is_empty: bool)

record DuplicateKeyInfo =
  path :: string
  key :: string

record JsonAnalysisResult =
  filepath :: "string option"
  analysis_error :: "string option"
  file_size_bytes :: "int option"
  root_type :: "string option"
  max_depth :: "int option"
  statistics :: "TypeStatistics option"
  structure_summary :: "StructureSummary option"
  duplicate_keys :: "DuplicateKeyInfo list option"

section \<open>Python built-ins used by the walk\<close>

text \<open>\<open>d[k] = v\<close> on a dict: an existing key keeps its position, a new key goes last.\<close>

fun dict_setitem :: "('k \<times> 'v) list \<Rightarrow> 'k \<Rightarrow> 'v \<Rightarrow> ('k \<times> 'v) list" where
  "dict_setitem [] k v = [(k, v)]"
| "dict_setitem ((k', v') # d) k v =
     (if k' = k then (k, v) # d else (k', v') # dict_setitem d k v)"

text \<open>\<open>obj_node.items()\<close> and iteration over \<open>arr_node\<close>.\<close>

fun dict_items :: "pyval \<Rightarrow> (string \<times> pyval) list" where
  "dict_items (PDict kvs) = kvs"
| "dict_items v = []"

fun list_elems :: "pyval \<Rightarrow> pyval list" where
  "list_elems (PList xs) = xs"
| "list_elems v = []"

text \<open>\<open>str(i)\<close> of a non-negative index, as the f-string \<open>[{i}]\<close> formats it.\<close>

definition digit_char :: "nat \<Rightarrow> char" where
  "digit_char d = ''0123456789'' ! d"

function str_nat :: "nat \<Rightarrow> string" where
  "str_nat n = (if n < 10 then [digit_char n] else str_nat (n div 10) @ [digit_char (n mod 10)])"
  by pat_completeness auto
termination
  by (relation "measure id") auto

declare str_nat.simps [simp del]

text \<open>
  \<open>==\<close> on two summaries. Python compares dicts as mappings: equal sizes, and every key of
  the left one is in the right one with an equal value; the order of insertion is not
  compared. Lists (\<open>element_types\<close>) are compared element by element, in order.
\<close>

fun summary_eq :: "StructureSummary \<Rightarrow> StructureSummary \<Rightarrow> bool" where
  "summary_eq (Summary t1 k1 e1 ts1 b1) (Summary t2 k2 e2 ts2 b2) =
     (t1 = t2
      \<and> (case k1 of
            None \<Rightarrow> k2 = None
          | Some d1 \<Rightarrow>
              (case k2 of
                 None \<Rightarrow> False
               | Some d2 \<Rightarrow>
                   length d1 = length d2
                   \<and> list_all (\<lambda>kv. case map_of d2 (fst kv) of
                                       None \<Rightarrow> False
                                     | Some s2 \<Rightarrow> summary_eq (snd kv) s2) d1))
      \<and> (case e1 of
            None \<Rightarrow> e2 = None
          | Some s1 \<Rightarrow> (case e2 of None \<Rightarrow> False | Some s2 \<Rightarrow> summary_eq s1 s2))
      \<and> ts1 = ts2
      \<and> b1 = b2)"

section \<open>The recursive walk (analyzer.py: \<open>_analyze_recursive\<close>)\<close>

text \<open>
  The three mutable objects that every call shares (\<open>stats\<close>, \<open>duplicates\<close>,
  \<open>max_depth_tracker\<close>) are threaded through as one record.
\<close>

record accumulators =
  stats :: TypeStatistics
  duplicates :: "DuplicateKeyInfo list"
  max_depth_tracker :: int

text \<open>
  The only exception the walk can meet is the interpreter's \<open>RecursionError\<close>. The first
  argument of the walk is the number of Python frames still available to
  \<open>_analyze_recursive\<close>: each call takes one, and a call with none left raises. The
  comparisons and the generator expression inside one call are not charged.
\<close>

datatype exn = RecursionError

text \<open>Lines 55-56: every node is counted and its depth recorded.\<close>

definition visit :: "accumulators \<Rightarrow> int \<Rightarrow> accumulators" where
  "visit acc current_depth =
     acc\<lparr>stats := (stats acc)\<lparr>total_values := total_values (stats acc) + 1\<rparr>,
         max_depth_tracker := max (max_depth_tracker acc) current_depth\<rparr>"

text \<open>Lines 67 and 86.\<close>

definition bump_objects :: "accumulators \<Rightarrow> accumulators" where
  "bump_objects acc = acc\<lparr>stats := (stats acc)\<lparr>objects := objects (stats acc) + 1\<rparr>\<rparr>"

definition bump_arrays :: "accumulators \<Rightarrow> accumulators" where
  "bump_arrays acc = acc\<lparr>stats := (stats acc)\<lparr>arrays := arrays (stats acc) + 1\<rparr>\<rparr>"

text \<open>Lines 120-128: the four leaf counters; \<open>unknown\<close> touches none of them.\<close>

definition count_leaf :: "string \<Rightarrow> accumulators \<Rightarrow> accumulators" where
  "count_leaf node_type acc =
     (if node_type = ''string'' then
        acc\<lparr>stats := (stats acc)\<lparr>strings := strings (stats acc) + 1\<rparr>\<rparr>
      else if node_type = ''number'' then
        acc\<lparr>stats := (stats acc)\<lparr>numbers := numbers (stats acc) + 1\<rparr>\<rparr>
      else if node_type = ''boolean'' then
        acc\<lparr>stats := (stats acc)\<lparr>booleans := booleans (stats acc) + 1\<rparr>\<rparr>
      else if node_type = ''null'' then
        acc\<lparr>stats := (stats acc)\<lparr>nulls := nulls (stats acc) + 1\<rparr>\<rparr>
      else acc)"

text \<open>Lines 75-78: the duplicate test against the keys seen in this object.\<close>

definition note_key :: "string \<Rightarrow> string \<Rightarrow> string set \<Rightarrow> accumulators \<Rightarrow> accumulators" where
  "note_key current_path k seen_keys acc =
     (if k \<in> seen_keys
      then acc\<lparr>duplicates := duplicates acc @ [\<lparr>path = current_path, key = k\<rparr>]\<rparr>
      else acc)"

definition seen_after :: "string \<Rightarrow> string set \<Rightarrow> string set" where
  "seen_after k seen_keys = (if k \<in> seen_keys then seen_keys else insert k seen_keys)"

text \<open>Lines 80 and 93: the child paths.\<close>

definition child_key_path :: "string \<Rightarrow> string \<Rightarrow> string" where
  "child_key_path current_path k =
     (if current_path \<noteq> [] then current_path @ ''.'' @ k else k)"

definition child_index_path :: "string \<Rightarrow> nat \<Rightarrow> string" where
  "child_index_path current_path i = current_path @ ''['' @ str_nat i @ '']''"

text \<open>Lines 100-118: the summary of an array from the summaries of its elements.\<close>

definition array_summary :: "string \<Rightarrow> bool \<Rightarrow> StructureSummary list \<Rightarrow> StructureSummary" where
  "array_summary node_type emp element_summaries =
     (let unique_types = sort (remdups (map stype element_summaries));
          es =
            (if element_summaries = [] then None
             else if length unique_types = 1 then
               (let first_summary = element_summaries ! 0;
                    is_uniform =
                      list_all (\<lambda>s. summary_eq s first_summary) element_summaries
                in if is_uniform then Some first_summary
                   else Some (Summary (unique_types ! 0) None None None False))
             else None)
      in Summary node_type None es (Some unique_types) emp)"

function analyze_recursive ::
      "nat \<Rightarrow> pyval \<Rightarrow> string \<Rightarrow> int \<Rightarrow> accumulators
        \<Rightarrow> exn + (StructureSummary \<times> accumulators)"
and analyze_items ::
      "nat \<Rightarrow> (string \<times> pyval) list \<Rightarrow> string \<Rightarrow> int \<Rightarrow> string set
        \<Rightarrow> (string \<times> StructureSummary) list \<Rightarrow> accumulators
        \<Rightarrow> exn + ((string \<times> StructureSummary) list \<times> accumulators)"
and analyze_elements ::
      "nat \<Rightarrow> pyval list \<Rightarrow> string \<Rightarrow> int \<Rightarrow> nat
        \<Rightarrow> StructureSummary list \<Rightarrow> accumulators
        \<Rightarrow> exn + (StructureSummary list \<times> accumulators)"
where
  "analyze_recursive 0 node current_path current_depth acc = Inl RecursionError"
| "analyze_recursive (Suc frames) node current_path current_depth acc =
     (if get_value_type node = ''object'' then
        (case analyze_items frames (dict_items node) current_path current_depth {} []
                (bump_objects (visit acc current_depth)) of
           Inl e \<Rightarrow> Inl e
         | Inr (ks, acc2) \<Rightarrow>
             Inr (Summary (get_value_type node) (Some ks) None None (dict_items node = []),
                  acc2))
      else if get_value_type node = ''array'' then
        (case analyze_elements frames (list_elems node) current_path current_depth 0 []
                (bump_arrays (visit acc current_depth)) of
           Inl e \<Rightarrow> Inl e
         | Inr (element_summaries, acc2) \<Rightarrow>
             Inr (array_summary (get_value_type node) (list_elems node = [])
                    element_summaries,
                  acc2))
      else
        Inr (Summary (get_value_type node) None None None False,
             count_leaf (get_value_type node) (visit acc current_depth)))"
| "analyze_items frames [] current_path current_depth seen_keys ks acc = Inr (ks, acc)"
| "analyze_items frames ((k, v) # rest) current_path current_depth seen_keys ks acc =
     (case analyze_recursive frames v (child_key_path current_path k) (current_depth + 1)
             (note_key current_path k seen_keys acc) of
        Inl e \<Rightarrow> Inl e
      | Inr (s, acc2) \<Rightarrow>
          analyze_items frames rest current_path current_depth (seen_after k seen_keys)
            (dict_setitem ks k s) acc2)"
| "analyze_elements frames [] current_path current_depth i element_summaries acc =
     Inr (element_summaries, acc)"
| "analyze_elements frames (item # rest) current_path current_depth i element_summaries acc =
     (case analyze_recursive frames item (child_index_path current_path i)
             (current_depth + 1) acc of
        Inl e \<Rightarrow> Inl e
      | Inr (item_summary, acc2) \<Rightarrow>
          analyze_elements frames rest current_path current_depth (Suc i)
            (element_summaries @ [item_summary]) acc2)"
  by pat_completeness auto
termination
  by (relation "inv_image (less_than <*lex*> less_than) (\<lambda>x. case x of
          Inl (n, _) \<Rightarrow> (n, 0)
        | Inr (Inl (n, xs, _)) \<Rightarrow> (n, Suc (length xs))
        | Inr (Inr (n, xs, _)) \<Rightarrow> (n, Suc (length xs)))") auto

section \<open>The entry point (analyzer.py: \<open>JsonAnalyzer\<close>)\<close>

record JsonAnalyzer =
  results :: JsonAnalysisResult
  parsed_data :: "pyval option"

definition JsonAnalyzer_init :: JsonAnalyzer where
  "JsonAnalyzer_init =
     \<lparr>results =
        \<lparr>filepath = None, analysis_error = None, file_size_bytes = None, root_type = None,
         max_depth = Some 0, statistics = None, structure_summary = None,
         duplicate_keys = Some []\<rparr>,
      parsed_data = None\<rparr>"

definition zero_stats :: TypeStatistics where
  "zero_stats =
     \<lparr>strings = 0, numbers = 0, booleans = 0, nulls = 0, objects = 0, arrays = 0,
      total_values = 0\<rparr>"

definition init_acc :: accumulators where
  "init_acc = \<lparr>stats = zero_stats, duplicates = [], max_depth_tracker = 0\<rparr>"

text \<open>
  The text stored in \<open>analysis_error\<close>; the traceback that follows \<open>Traceback:\<close> is left
  out.
\<close>

fun exn_name :: "exn \<Rightarrow> string" where
  "exn_name RecursionError = ''RecursionError''"

fun exn_str :: "exn \<Rightarrow> string" where
  "exn_str RecursionError = ''maximum recursion depth exceeded''"

definition analysis_error_text :: "exn \<Rightarrow> string" where
  "analysis_error_text e =
     ''Unexpected Analysis Error: Failed processing JSON data.'' @ [CHR 0x0A]
     @ ''  Error: '' @ exn_name e @ '': '' @ exn_str e @ [CHR 0x0A]
     @ ''Traceback:'' @ [CHR 0x0A]"

definition analyze :: "nat \<Rightarrow> pyval \<Rightarrow> JsonAnalyzer \<Rightarrow> JsonAnalyzer" where
  "analyze frames data self =
     (let r0 = (results self)\<lparr>root_type := Some (get_value_type data)\<rparr>;
          r1 =
            (case analyze_recursive frames data ''root'' 0 init_acc of
               Inr (summary, acc) \<Rightarrow>
                 r0\<lparr>structure_summary := Some summary,
                    statistics := Some (stats acc),
                    max_depth := Some (max_depth_tracker acc),
                    duplicate_keys := Some (duplicates acc)\<rparr>
             | Inl e \<Rightarrow>
                 r0\<lparr>analysis_error := Some (analysis_error_text e),
                    structure_summary := None,
                    statistics := None,
                    max_depth := None,
                    duplicate_keys := Some []\<rparr>)
      in self\<lparr>parsed_data := Some data, results := r1\<rparr>)"

section \<open>Parsing (file_handler.py: \<open>json.load\<close>)\<close>

text \<open>
  \<open>read_and_parse_json\<close> hands the file to the standard library's \<open>json.load\<close>. A JSON
  text may repeat a name inside one object; the decoder stores the members into a dict
  one after the other, so a repeated name keeps the place of its first occurrence and the
  value of its last. \<open>json\<close> is the document as written, \<open>json_load\<close> the Python
  value the decoder returns for it.
\<close>

datatype json =
    JString string
  | JInt int
  | JFloat real
  | JBool bool
  | JNull
  | JObject "(string \<times> json) list"
  | JArray "json list"

definition dict_of_pairs :: "('k \<times> 'v) list \<Rightarrow> ('k \<times> 'v) list" where
  "dict_of_pairs pairs = foldl (\<lambda>d kv. dict_setitem d (fst kv) (snd kv)) [] pairs"

fun json_load :: "json \<Rightarrow> pyval" where
  "json_load (JString s) = PStr s"
| "json_load (JInt i) = PInt i"
| "json_load (JFloat f) = PFloat f"
| "json_load (JBool b) = PBool b"
| "json_load JNull = PNone"
| "json_load (JObject members) =
     PDict (dict_of_pairs (map (\<lambda>kv. (fst kv, json_load (snd kv))) members))"
| "json_load (JArray xs) = PList (map json_load xs)"

text \<open>A Python value whose dicts hold every key once: what a dict is.\<close>

fun wf_pyval :: "pyval \<Rightarrow> bool" where
  "wf_pyval (PDict kvs) =
     (distinct (map fst kvs) \<and> list_all (\<lambda>kv. wf_pyval (snd kv)) kvs)"
| "wf_pyval (PList xs) = list_all wf_pyval xs"
| "wf_pyval v = True"

section \<open>Measures of a value tree\<close>

text \<open>The number of nodes of the tree: leaves plus containers, the root included.\<close>

fun count_nodes :: "pyval \<Rightarrow> nat" where
  "count_nodes (PDict kvs) = Suc (sum_list (map (\<lambda>kv. count_nodes (snd kv)) kvs))"
| "count_nodes (PList xs) = Suc (sum_list (map count_nodes xs))"
| "count_nodes v = 1"

text \<open>The number of nodes that the classifier gives the tag \<open>t\<close>.\<close>

fun count_type :: "string \<Rightarrow> pyval \<Rightarrow> nat" where
  "count_type t (PDict kvs) =
     (if t = ''object'' then 1 else 0) + sum_list (map (\<lambda>kv. count_type t (snd kv)) kvs)"
| "count_type t (PList xs) =
     (if t = ''array'' then 1 else 0) + sum_list (map (count_type t) xs)"
| "count_type t v = (if get_value_type v = t then 1 else 0)"

text \<open>
  The length of the longest path from the root to a leaf, the root at depth 0; a
  container without children is a leaf.
\<close>

fun tree_depth :: "pyval \<Rightarrow> nat" where
  "tree_depth (PDict kvs) = foldr max (map (\<lambda>kv. Suc (tree_depth (snd kv))) kvs) 0"
| "tree_depth (PList xs) = foldr max (map (\<lambda>x. Suc (tree_depth x)) xs) 0"
| "tree_depth v = 0"

text \<open>The sum of the six named counters.\<close>

definition six_sum :: "TypeStatistics \<Rightarrow> int" where
  "six_sum st = strings st + numbers st + booleans st + nulls st + objects st + arrays st"

section \<open>The report (report.py)\<close>

text \<open>
  At run time every TypedDict is a plain dict, and \<open>_clean_none_values_report\<close> walks
  the result as such. The functions below give the dict that each record stands for, with
  the keys in the order the source's dict literals write them.
\<close>

definition py_opt :: "('a \<Rightarrow> pyval) \<Rightarrow> 'a option \<Rightarrow> pyval" where
  "py_opt f x = (case x of None \<Rightarrow> PNone | Some y \<Rightarrow> f y)"

definition py_of_stats :: "TypeStatistics \<Rightarrow> pyval" where
  "py_of_stats st =
     PDict [(''strings'', PInt (strings st)), (''numbers'', PInt (numbers st)),
            (''booleans'', PInt (booleans st)), (''nulls'', PInt (nulls st)),
            (''objects'', PInt (objects st)), (''arrays'', PInt (arrays st)),
            (''total_values'', PInt (total_values st))]"

fun py_of_summary :: "StructureSummary \<Rightarrow> pyval" where
  "py_of_summary (Summary t ks es ts b) =
     PDict [(''type'', PStr t),
            (''keys'',
               (case ks of
                  None \<Rightarrow> PNone
                | Some d \<Rightarrow> PDict (map (\<lambda>kv. (fst kv, py_of_summary (snd kv))) d))),
            (''element_summary'',
               (case es of None \<Rightarrow> PNone | Some s \<Rightarrow> py_of_summary s)),
            (''element_types'', py_opt (\<lambda>l. PList (map PStr l)) ts),
            (''is_empty'', PBool b)]"

definition py_of_dup :: "DuplicateKeyInfo \<Rightarrow> pyval" where
  "py_of_dup d = PDict [(''path'', PStr (path d)), (''key'', PStr (key d))]"

definition py_of_results :: "JsonAnalysisResult \<Rightarrow> pyval" where
  "py_of_results r =
     PDict [(''filepath'', py_opt PStr (filepath r)),
            (''analysis_error'', py_opt PStr (analysis_error r)),
            (''file_size_bytes'', py_opt PInt (file_size_bytes r)),
            (''root_type'', py_opt PStr (root_type r)),
            (''max_depth'', py_opt PInt (max_depth r)),
            (''statistics'', py_opt py_of_stats (statistics r)),
            (''structure'', py_opt py_of_summary (structure_summary r)),
            (''duplicate_keys'', py_opt (\<lambda>ds. PList (map py_of_dup ds)) (duplicate_keys r))]"

text \<open>\<open>k in d\<close> and \<open>d.get(k)\<close> on a dict.\<close>

definition dict_contains :: "('k \<times> 'v) list \<Rightarrow> 'k \<Rightarrow> bool" where
  "dict_contains d k = (k \<in> set (map fst d))"

definition dict_get :: "pyval \<Rightarrow> string \<Rightarrow> pyval option" where
  "dict_get d k = map_of (dict_items d) k"

subsection \<open>\<open>_clean_none_values_report\<close>\<close>

text \<open>
  As for the walk, the first argument is the number of frames left for the function's own
  calls, and a call with none left raises \<open>RecursionError\<close>.
\<close>

function clean_none_values_report :: "nat \<Rightarrow> pyval \<Rightarrow> exn + pyval"
and clean_items ::
      "nat \<Rightarrow> (string \<times> pyval) list \<Rightarrow> (string \<times> pyval) list
        \<Rightarrow> exn + (string \<times> pyval) list"
and clean_list :: "nat \<Rightarrow> pyval list \<Rightarrow> exn + pyval list"
where
  "clean_none_values_report 0 item = Inl RecursionError"
| "clean_none_values_report (Suc frames) item =
     (if isinstance_dict item then
        (case clean_items frames (dict_items item) [] of
           Inl e \<Rightarrow> Inl e
         | Inr cleaned_dict \<Rightarrow>
             Inr (PDict
               (if dict_contains (dict_items item) ''duplicate_keys''
                   \<and> \<not> dict_contains cleaned_dict ''duplicate_keys''
                then dict_setitem cleaned_dict ''duplicate_keys'' (PList [])
                else cleaned_dict)))
      else if isinstance_list item then
        (case clean_list frames (list_elems item) of
           Inl e \<Rightarrow> Inl e
         | Inr cleaned \<Rightarrow> Inr (PList cleaned))
      else Inr item)"
| "clean_items frames [] cleaned_dict = Inr cleaned_dict"
| "clean_items frames ((k, v) # rest) cleaned_dict =
     (if v \<noteq> PNone then
        (case clean_none_values_report frames v of
           Inl e \<Rightarrow> Inl e
         | Inr cleaned_value \<Rightarrow>
             clean_items frames rest (dict_setitem cleaned_dict k cleaned_value))
      else clean_items frames rest cleaned_dict)"
| "clean_list frames [] = Inr []"
| "clean_list frames (i # rest) =
     (case clean_none_values_report frames i of
        Inl e \<Rightarrow> Inl e
      | Inr c \<Rightarrow>
          (case clean_list frames rest of
             Inl e \<Rightarrow> Inl e
           | Inr cs \<Rightarrow> Inr (c # cs)))"
  by pat_completeness auto
termination
  by (relation "inv_image (less_than <*lex*> less_than) (\<lambda>x. case x of
          Inl (n, _) \<Rightarrow> (n, 0)
        | Inr (Inl (n, xs, _)) \<Rightarrow> (n, Suc (length xs))
        | Inr (Inr (n, xs)) \<Rightarrow> (n, Suc (length xs)))") auto

subsection \<open>\<open>generate_json_report\<close>\<close>

text \<open>Truthiness of an optional string (\<open>report_data.get("filepath")\<close>).\<close>

definition truthy_str :: "string option \<Rightarrow> bool" where
  "truthy_str x = (case x of None \<Rightarrow> False | Some s \<Rightarrow> s \<noteq> [])"

text \<open>Lines 59-66: the duplicate list is sorted by \<open>(path, key)\<close> when it is not empty.\<close>

definition sort_duplicates :: "JsonAnalysisResult \<Rightarrow> JsonAnalysisResult" where
  "sort_duplicates report_data =
     (case duplicate_keys report_data of
        None \<Rightarrow> report_data
      | Some [] \<Rightarrow> report_data
      | Some (d # ds) \<Rightarrow>
          report_data\<lparr>duplicate_keys := Some (sort_key (\<lambda>d. (path d, key d)) (d # ds))\<rparr>)"

text \<open>Lines 59-83: the body of the \<open>try\<close>.\<close>

definition report_try :: "nat \<Rightarrow> JsonAnalysisResult \<Rightarrow> exn + pyval" where
  "report_try frames report_data =
     (case clean_none_values_report frames (py_of_results (sort_duplicates report_data)) of
        Inl e \<Rightarrow> Inl e
      | Inr cleaned_report \<Rightarrow>
          (let c1 =
                 (if \<not> dict_contains (dict_items cleaned_report) ''filepath''
                     \<and> truthy_str (filepath report_data)
                  then dict_setitem (dict_items cleaned_report) ''filepath''
                         (py_opt PStr (filepath report_data))
                  else dict_items cleaned_report);
               c2 =
                 (if truthy_str (analysis_error report_data)
                     \<and> \<not> dict_contains c1 ''analysis_error''
                  then dict_setitem c1 ''analysis_error''
                         (py_opt PStr (analysis_error report_data))
                  else c1)
           in Inr (PDict c2)))"

text \<open>Lines 85-99: the handler; the traceback text is left out.\<close>

definition final_error_text :: "exn \<Rightarrow> string" where
  "final_error_text e =
     ''Error during report generation: '' @ exn_name e @ '': '' @ exn_str e @ [CHR 0x0A]
     @ ''Traceback:'' @ [CHR 0x0A]"

definition minimal_error_report :: "JsonAnalysisResult \<Rightarrow> exn \<Rightarrow> pyval" where
  "minimal_error_report report_data e =
     (let m = [(''filepath'', py_opt PStr (filepath report_data)),
               (''analysis_error'',
                  PStr (case analysis_error report_data of
                          None \<Rightarrow> final_error_text e
                        | Some msg \<Rightarrow> if msg \<noteq> [] then msg else final_error_text e))]
      in PDict (case file_size_bytes report_data of
                  None \<Rightarrow> m
                | Some n \<Rightarrow> dict_setitem m ''file_size_bytes'' (PInt n)))"

definition generate_json_report :: "nat \<Rightarrow> JsonAnalyzer \<Rightarrow> pyval" where
  "generate_json_report frames analyzer =
     (case report_try frames (results analyzer) of
        Inr report \<Rightarrow> report
      | Inl e \<Rightarrow> minimal_error_report (results analyzer) e)"

text \<open>No dict anywhere in the value holds \<open>None\<close> under a key.\<close>

fun none_free :: "pyval \<Rightarrow> bool" where
  "none_free (PDict kvs) = list_all (\<lambda>kv. snd kv \<noteq> PNone \<and> none_free (snd kv)) kvs"
| "none_free (PList xs) = list_all none_free xs"
| "none_free v = True"

section \<open>Auxiliary notions and the documents of the scenarios\<close>

text \<open>A node without children to visit: everything but a dict or a list.\<close>

fun is_leaf :: "pyval \<Rightarrow> bool" where
  "is_leaf (PDict kvs) = False"
| "is_leaf (PList xs) = False"
| "is_leaf v = True"


text \<open>\<open>{"id":1,"id":2,"tags":["x","y"],"meta":null}\<close>\<close>

definition scenario_document :: json where
  "scenario_document =
     JObject [(''id'', JInt 1), (''id'', JInt 2),
              (''tags'', JArray [JString ''x'', JString ''y'']), (''meta'', JNull)]"

text \<open>\<open>{"a": {"x":1,"x":2}, "b": {"x":3,"x":4}}\<close>\<close>

definition scoped_document :: json where
  "scoped_document =
     JObject [(''a'', JObject [(''x'', JInt 1), (''x'', JInt 2)]),
              (''b'', JObject [(''x'', JInt 3), (''x'', JInt 4)])]"

text \<open>
  An analyzer whose result holds the duplicates \<open>(root.b, x)\<close> and \<open>(root.a, y)\<close>, in
  this order.
\<close>

definition ordering_analyzer :: JsonAnalyzer where
  "ordering_analyzer =
     JsonAnalyzer_init\<lparr>results := (results JsonAnalyzer_init)
       \<lparr>statistics := Some zero_stats,
        duplicate_keys := Some [\<lparr>path = ''root.b'', key = ''x''\<rparr>,
                                \<lparr>path = ''root.a'', key = ''y''\<rparr>]\<rparr>\<rparr>"

section \<open>Basic facts\<close>

lemma get_value_type_simps [simp]:
  "get_value_type (PStr s) = ''string''"
  "get_value_type (PBool b) = ''boolean''"
  "get_value_type (PInt i) = ''number''"
  "get_value_type (PFloat f) = ''number''"
  "get_value_type (PDict kvs) = ''object''"
  "get_value_type (PList xs) = ''array''"
  "get_value_type PNone = ''null''"
  "get_value_type POther = ''unknown''"
  by (simp_all add: get_value_type_def)

subsection \<open>One call of the walk, by the kind of node\<close>

lemma walk_dict:
  "analyze_recursive (Suc n) (PDict kvs) p d acc =
     (case analyze_items n kvs p d {} [] (bump_objects (visit acc d)) of
        Inl e \<Rightarrow> Inl e
      | Inr (ks, acc2) \<Rightarrow> Inr (Summary ''object'' (Some ks) None None (kvs = []), acc2))"
  by (simp split: sum.split)

lemma walk_list:
  "analyze_recursive (Suc n) (PList xs) p d acc =
     (case analyze_elements n xs p d 0 [] (bump_arrays (visit acc d)) of
        Inl e \<Rightarrow> Inl e
      | Inr (es, acc2) \<Rightarrow> Inr (array_summary ''array'' (xs = []) es, acc2))"
  by (simp split: sum.split)

lemma walk_leaf:
  "is_leaf v \<Longrightarrow> analyze_recursive (Suc n) v p d acc =
     Inr (Summary (get_value_type v) None None None False,
          count_leaf (get_value_type v) (visit acc d))"
  by (cases v) simp_all

declare analyze_recursive.simps(2) [simp del]

lemma walk_dict_Inr:
  assumes "analyze_recursive (Suc n) (PDict kvs) p d acc = Inr (s, acc')"
  obtains ks where
    "analyze_items n kvs p d {} [] (bump_objects (visit acc d)) = Inr (ks, acc')"
    "s = Summary ''object'' (Some ks) None None (kvs = [])"
  using assms by (auto simp: walk_dict split: sum.splits)

lemma walk_list_Inr:
  assumes "analyze_recursive (Suc n) (PList xs) p d acc = Inr (s, acc')"
  obtains es where
    "analyze_elements n xs p d 0 [] (bump_arrays (visit acc d)) = Inr (es, acc')"
    "s = array_summary ''array'' (xs = []) es"
  using assms by (auto simp: walk_list split: sum.splits)

lemma analyze_items_Cons_Inr:
  assumes "analyze_items n ((k, v) # rest) p d seen ks acc = Inr (ks', acc')"
  obtains s acc1 where
    "analyze_recursive n v (child_key_path p k) (d + 1) (note_key p k seen acc) = Inr (s, acc1)"
    "analyze_items n rest p d (seen_after k seen) (dict_setitem ks k s) acc1 = Inr (ks', acc')"
  using assms by (auto split: sum.splits)

lemma analyze_elements_Cons_Inr:
  assumes "analyze_elements n (x # rest) p d i es acc = Inr (es', acc')"
  obtains s acc1 where
    "analyze_recursive n x (child_index_path p i) (d + 1) acc = Inr (s, acc1)"
    "analyze_elements n rest p d (Suc i) (es @ [s]) acc1 = Inr (es', acc')"
  using assms by (auto split: sum.splits)

subsection \<open>The accumulators after one step\<close>

lemma total_values_helpers [simp]:
  "total_values (stats (visit acc d)) = total_values (stats acc) + 1"
  "total_values (stats (bump_objects acc)) = total_values (stats acc)"
  "total_values (stats (bump_arrays acc)) = total_values (stats acc)"
  "total_values (stats (count_leaf t acc)) = total_values (stats acc)"
  "total_values (stats (note_key p k seen acc)) = total_values (stats acc)"
  by (simp_all add: visit_def bump_objects_def bump_arrays_def count_leaf_def note_key_def)

lemma six_sum_helpers [simp]:
  "six_sum (stats (visit acc d)) = six_sum (stats acc)"
  "six_sum (stats (bump_objects acc)) = six_sum (stats acc) + 1"
  "six_sum (stats (bump_arrays acc)) = six_sum (stats acc) + 1"
  "six_sum (stats (note_key p k seen acc)) = six_sum (stats acc)"
  by (simp_all add: six_sum_def visit_def bump_objects_def bump_arrays_def note_key_def)

lemma six_sum_leaf:
  "is_leaf v \<Longrightarrow> six_sum (stats (count_leaf (get_value_type v) acc)) + int (count_type ''unknown'' v)
     = six_sum (stats acc) + 1"
  by (cases v) (simp_all add: six_sum_def count_leaf_def)

lemma max_depth_helpers [simp]:
  "max_depth_tracker (visit acc d) = max (max_depth_tracker acc) d"
  "max_depth_tracker (bump_objects acc) = max_depth_tracker acc"
  "max_depth_tracker (bump_arrays acc) = max_depth_tracker acc"
  "max_depth_tracker (count_leaf t acc) = max_depth_tracker acc"
  "max_depth_tracker (note_key p k seen acc) = max_depth_tracker acc"
  by (simp_all add: visit_def bump_objects_def bump_arrays_def count_leaf_def note_key_def)

lemma tree_depth_leaf: "is_leaf v \<Longrightarrow> tree_depth v = 0"
  by (cases v) simp_all

subsection \<open>The accumulators after a successful walk\<close>

text \<open>
  Each fact is proved for the two loops from the fact for the calls they make, and then
  for the walk by induction on the number of frames.
\<close>

lemma items_total_values:
  assumes IH: "\<And>v p d acc s acc'. analyze_recursive n v p d acc = Inr (s, acc') \<Longrightarrow>
     total_values (stats acc') = total_values (stats acc) + int (count_nodes v)"
  shows "analyze_items n kvs p d seen ks acc = Inr (ks', acc') \<Longrightarrow>
     total_values (stats acc') =
       total_values (stats acc) + int (sum_list (map (\<lambda>kv. count_nodes (snd kv)) kvs))"
proof (induction kvs arbitrary: seen ks acc)
  case Nil
  then show ?case by simp
next
  case (Cons kv rest)
  obtain k v where kv: "kv = (k, v)" by (cases kv)
  from Cons.prems obtain s acc1 where
    a: "analyze_recursive n v (child_key_path p k) (d + 1) (note_key p k seen acc) = Inr (s, acc1)" and
    b: "analyze_items n rest p d (seen_after k seen) (dict_setitem ks k s) acc1 = Inr (ks', acc')"
    unfolding kv by (rule analyze_items_Cons_Inr)
  from IH[OF a] Cons.IH[OF b] show ?case by (simp add: kv)
qed

lemma elements_total_values:
  assumes IH: "\<And>v p d acc s acc'. analyze_recursive n v p d acc = Inr (s, acc') \<Longrightarrow>
     total_values (stats acc') = total_values (stats acc) + int (count_nodes v)"
  shows "analyze_elements n xs p d i es acc = Inr (es', acc') \<Longrightarrow>
     total_values (stats acc') = total_values (stats acc) + int (sum_list (map count_nodes xs))"
proof (induction xs arbitrary: i es acc)
  case Nil
  then show ?case by simp
next
  case (Cons x rest)
  from Cons.prems obtain s acc1 where
    a: "analyze_recursive n x (child_index_path p i) (d + 1) acc = Inr (s, acc1)" and
    b: "analyze_elements n rest p d (Suc i) (es @ [s]) acc1 = Inr (es', acc')"
    by (rule analyze_elements_Cons_Inr)
  from IH[OF a] Cons.IH[OF b] show ?case by simp
qed

lemma walk_total_values:
  "analyze_recursive n v p d acc = Inr (s, acc') \<Longrightarrow>
     total_values (stats acc') = total_values (stats acc) + int (count_nodes v)"
proof (induction n arbitrary: v p d acc s acc')
  case 0
  then show ?case by simp
next
  case (Suc n)
  show ?case
  proof (cases v)
    case (PDict kvs)
    from Suc.prems obtain ks where
      a: "analyze_items n kvs p d {} [] (bump_objects (visit acc d)) = Inr (ks, acc')"
      unfolding PDict by (rule walk_dict_Inr)
    from items_total_values[OF Suc.IH a] show ?thesis by (simp add: PDict)
  next
    case (PList xs)
    from Suc.prems obtain es where
      a: "analyze_elements n xs p d 0 [] (bump_arrays (visit acc d)) = Inr (es, acc')"
      unfolding PList by (rule walk_list_Inr)
    from elements_total_values[OF Suc.IH a] show ?thesis by (simp add: PList)
  qed (use Suc.prems in \<open>auto simp: walk_leaf\<close>)
qed

lemma items_six_sum:
  assumes IH: "\<And>v p d acc s acc'. analyze_recursive n v p d acc = Inr (s, acc') \<Longrightarrow>
     six_sum (stats acc') + int (count_type ''unknown'' v) = six_sum (stats acc) + int (count_nodes v)"
  shows "analyze_items n kvs p d seen ks acc = Inr (ks', acc') \<Longrightarrow>
     six_sum (stats acc') + int (sum_list (map (\<lambda>kv. count_type ''unknown'' (snd kv)) kvs))
       = six_sum (stats acc) + int (sum_list (map (\<lambda>kv. count_nodes (snd kv)) kvs))"
proof (induction kvs arbitrary: seen ks acc)
  case Nil
  then show ?case by simp
next
  case (Cons kv rest)
  obtain k v where kv: "kv = (k, v)" by (cases kv)
  from Cons.prems obtain s acc1 where
    a: "analyze_recursive n v (child_key_path p k) (d + 1) (note_key p k seen acc) = Inr (s, acc1)" and
    b: "analyze_items n rest p d (seen_after k seen) (dict_setitem ks k s) acc1 = Inr (ks', acc')"
    unfolding kv by (rule analyze_items_Cons_Inr)
  from IH[OF a] Cons.IH[OF b] show ?case by (simp add: kv)
qed

lemma elements_six_sum:
  assumes IH: "\<And>v p d acc s acc'. analyze_recursive n v p d acc = Inr (s, acc') \<Longrightarrow>
     six_sum (stats acc') + int (count_type ''unknown'' v) = six_sum (stats acc) + int (count_nodes v)"
  shows "analyze_elements n xs p d i es acc = Inr (es', acc') \<Longrightarrow>
     six_sum (stats acc') + int (sum_list (map (count_type ''unknown'') xs))
       = six_sum (stats acc) + int (sum_list (map count_nodes xs))"
proof (induction xs arbitrary: i es acc)
  case Nil
  then show ?case by simp
next
  case (Cons x rest)
  from Cons.prems obtain s acc1 where
    a: "analyze_recursive n x (child_index_path p i) (d + 1) acc = Inr (s, acc1)" and
    b: "analyze_elements n rest p d (Suc i) (es @ [s]) acc1 = Inr (es', acc')"
    by (rule analyze_elements_Cons_Inr)
  from IH[OF a] Cons.IH[OF b] show ?case by simp
qed

lemma count_nodes_leaf: "is_leaf v \<Longrightarrow> count_nodes v = 1"
  by (cases v) simp_all

lemma walk_six_sum:
  "analyze_recursive n v p d acc = Inr (s, acc') \<Longrightarrow>
     six_sum (stats acc') + int (count_type ''unknown'' v) = six_sum (stats acc) + int (count_nodes v)"
proof (induction n arbitrary: v p d acc s acc')
  case 0
  then show ?case by simp
next
  case (Suc n)
  show ?case
  proof (cases "is_leaf v")
    case True
    with Suc.prems have "acc' = count_leaf (get_value_type v) (visit acc d)"
      by (simp add: walk_leaf)
    with six_sum_leaf[OF True, of "visit acc d"] True show ?thesis
      by (simp add: count_nodes_leaf)
  next
    case False
    show ?thesis
    proof (cases v)
      case (PDict kvs)
      from Suc.prems obtain ks where
        a: "analyze_items n kvs p d {} [] (bump_objects (visit acc d)) = Inr (ks, acc')"
        unfolding PDict by (rule walk_dict_Inr)
      from items_six_sum[OF Suc.IH a] show ?thesis by (simp add: PDict)
    next
      case (PList xs)
      from Suc.prems obtain es where
        a: "analyze_elements n xs p d 0 [] (bump_arrays (visit acc d)) = Inr (es, acc')"
        unfolding PList by (rule walk_list_Inr)
      from elements_six_sum[OF Suc.IH a] show ?thesis by (simp add: PList)
    qed (use False in simp_all)
  qed
qed

lemma items_max_depth:
  assumes IH: "\<And>v p d acc s acc'. analyze_recursive n v p d acc = Inr (s, acc') \<Longrightarrow>
     max_depth_tracker acc' = max (max_depth_tracker acc) (d + int (tree_depth v))"
  shows "analyze_items n kvs p d seen ks acc = Inr (ks', acc') \<Longrightarrow> d \<le> max_depth_tracker acc \<Longrightarrow>
     max_depth_tracker acc' =
       max (max_depth_tracker acc)
           (d + int (foldr max (map (\<lambda>kv. Suc (tree_depth (snd kv))) kvs) 0))"
proof (induction kvs arbitrary: seen ks acc)
  case Nil
  then show ?case by simp
next
  case (Cons kv rest)
  obtain k v where kv: "kv = (k, v)" by (cases kv)
  from Cons.prems(1) obtain s acc1 where
    a: "analyze_recursive n v (child_key_path p k) (d + 1) (note_key p k seen acc) = Inr (s, acc1)" and
    b: "analyze_items n rest p d (seen_after k seen) (dict_setitem ks k s) acc1 = Inr (ks', acc')"
    unfolding kv by (rule analyze_items_Cons_Inr)
  from IH[OF a] have c: "max_depth_tracker acc1 = max (max_depth_tracker acc) (d + 1 + int (tree_depth v))"
    by simp
  with Cons.prems(2) have "d \<le> max_depth_tracker acc1" by simp
  from Cons.IH[OF b this] c show ?case by (simp add: kv)
qed

lemma elements_max_depth:
  assumes IH: "\<And>v p d acc s acc'. analyze_recursive n v p d acc = Inr (s, acc') \<Longrightarrow>
     max_depth_tracker acc' = max (max_depth_tracker acc) (d + int (tree_depth v))"
  shows "analyze_elements n xs p d i es acc = Inr (es', acc') \<Longrightarrow> d \<le> max_depth_tracker acc \<Longrightarrow>
     max_depth_tracker acc' =
       max (max_depth_tracker acc) (d + int (foldr max (map (\<lambda>x. Suc (tree_depth x)) xs) 0))"
proof (induction xs arbitrary: i es acc)
  case Nil
  then show ?case by simp
next
  case (Cons x rest)
  from Cons.prems(1) obtain s acc1 where
    a: "analyze_recursive n x (child_index_path p i) (d + 1) acc = Inr (s, acc1)" and
    b: "analyze_elements n rest p d (Suc i) (es @ [s]) acc1 = Inr (es', acc')"
    by (rule analyze_elements_Cons_Inr)
  from IH[OF a] have c: "max_depth_tracker acc1 = max (max_depth_tracker acc) (d + 1 + int (tree_depth x))"
    by simp
  with Cons.prems(2) have "d \<le> max_depth_tracker acc1" by simp
  from Cons.IH[OF b this] c show ?case by simp
qed

lemma walk_max_depth:
  "analyze_recursive n v p d acc = Inr (s, acc') \<Longrightarrow>
     max_depth_tracker acc' = max (max_depth_tracker acc) (d + int (tree_depth v))"
proof (induction n arbitrary: v p d acc s acc')
  case 0
  then show ?case by simp
next
  case (Suc n)
  show ?case
  proof (cases "is_leaf v")
    case True
    with Suc.prems show ?thesis by (auto simp: walk_leaf tree_depth_leaf)
  next
    case False
    show ?thesis
    proof (cases v)
      case (PDict kvs)
      from Suc.prems obtain ks where
        a: "analyze_items n kvs p d {} [] (bump_objects (visit acc d)) = Inr (ks, acc')"
        unfolding PDict by (rule walk_dict_Inr)
      have "d \<le> max_depth_tracker (bump_objects (visit acc d))" by simp
      from items_max_depth[OF Suc.IH a this] show ?thesis by (simp add: PDict)
    next
      case (PList xs)
      from Suc.prems obtain es where
        a: "analyze_elements n xs p d 0 [] (bump_arrays (visit acc d)) = Inr (es, acc')"
        unfolding PList by (rule walk_list_Inr)
      have "d \<le> max_depth_tracker (bump_arrays (visit acc d))" by simp
      from elements_max_depth[OF Suc.IH a this] show ?thesis by (simp add: PList)
    qed (use False in simp_all)
  qed
qed

subsection \<open>The walk succeeds exactly when the frames suffice\<close>

lemma foldr_max_less:
  "foldr max (map f xs) (0::nat) < m \<longleftrightarrow> 0 < m \<and> (\<forall>x\<in>set xs. f x < m)"
  by (induction xs) auto

lemma items_succeed:
  assumes IH: "\<And>v p d acc. tree_depth v < n \<Longrightarrow>
     \<exists>s acc'. analyze_recursive n v p d acc = Inr (s, acc')"
  shows "\<forall>kv\<in>set kvs. tree_depth (snd kv) < n \<Longrightarrow>
     \<exists>ks' acc'. analyze_items n kvs p d seen ks acc = Inr (ks', acc')"
proof (induction kvs arbitrary: seen ks acc)
  case Nil
  then show ?case by simp
next
  case (Cons kv rest)
  obtain k v where kv: "kv = (k, v)" by (cases kv)
  from Cons.prems have "tree_depth v < n" by (simp add: kv)
  from IH[OF this] obtain s acc1 where
    a: "analyze_recursive n v (child_key_path p k) (d + 1) (note_key p k seen acc) = Inr (s, acc1)"
    by blast
  from Cons.prems have "\<forall>kv\<in>set rest. tree_depth (snd kv) < n" by simp
  from Cons.IH[OF this] obtain ks' acc' where
    "analyze_items n rest p d (seen_after k seen) (dict_setitem ks k s) acc1 = Inr (ks', acc')"
    by blast
  with a show ?case by (simp add: kv)
qed

lemma elements_succeed:
  assumes IH: "\<And>v p d acc. tree_depth v < n \<Longrightarrow>
     \<exists>s acc'. analyze_recursive n v p d acc = Inr (s, acc')"
  shows "\<forall>x\<in>set xs. tree_depth x < n \<Longrightarrow>
     \<exists>es' acc'. analyze_elements n xs p d i es acc = Inr (es', acc')"
proof (induction xs arbitrary: i es acc)
  case Nil
  then show ?case by simp
next
  case (Cons x rest)
  from Cons.prems have "tree_depth x < n" by simp
  from IH[OF this] obtain s acc1 where
    a: "analyze_recursive n x (child_index_path p i) (d + 1) acc = Inr (s, acc1)"
    by blast
  from Cons.prems have "\<forall>x\<in>set rest. tree_depth x < n" by simp
  from Cons.IH[OF this] obtain es' acc' where
    "analyze_elements n rest p d (Suc i) (es @ [s]) acc1 = Inr (es', acc')"
    by blast
  with a show ?case by simp
qed

lemma walk_succeeds:
  "tree_depth v < n \<Longrightarrow> \<exists>s acc'. analyze_recursive n v p d acc = Inr (s, acc')"
proof (induction n arbitrary: v p d acc)
  case 0
  then show ?case by simp
next
  case (Suc n)
  show ?case
  proof (cases "is_leaf v")
    case True
    then show ?thesis by (simp add: walk_leaf)
  next
    case False
    show ?thesis
    proof (cases v)
      case (PDict kvs)
      from Suc.prems have "\<forall>kv\<in>set kvs. tree_depth (snd kv) < n"
        by (simp add: PDict foldr_max_less)
      from items_succeed[OF Suc.IH this] obtain ks' acc' where
        "analyze_items n kvs p d {} [] (bump_objects (visit acc d)) = Inr (ks', acc')"
        by blast
      then show ?thesis by (simp add: PDict walk_dict)
    next
      case (PList xs)
      from Suc.prems have "\<forall>x\<in>set xs. tree_depth x < n"
        by (simp add: PList foldr_max_less)
      from elements_succeed[OF Suc.IH this] obtain es' acc' where
        "analyze_elements n xs p d 0 [] (bump_arrays (visit acc d)) = Inr (es', acc')"
        by blast
      then show ?thesis by (simp add: PList walk_list)
    qed (use False in simp_all)
  qed
qed

lemma items_Inr_depth:
  assumes IH: "\<And>v p d acc s acc'. analyze_recursive n v p d acc = Inr (s, acc') \<Longrightarrow> tree_depth v < n"
  shows "analyze_items n kvs p d seen ks acc = Inr (ks', acc') \<Longrightarrow>
     \<forall>kv\<in>set kvs. tree_depth (snd kv) < n"
proof (induction kvs arbitrary: seen ks acc)
  case Nil
  then show ?case by simp
next
  case (Cons kv rest)
  obtain k v where kv: "kv = (k, v)" by (cases kv)
  from Cons.prems obtain s acc1 where
    a: "analyze_recursive n v (child_key_path p k) (d + 1) (note_key p k seen acc) = Inr (s, acc1)" and
    b: "analyze_items n rest p d (seen_after k seen) (dict_setitem ks k s) acc1 = Inr (ks', acc')"
    unfolding kv by (rule analyze_items_Cons_Inr)
  from IH[OF a] Cons.IH[OF b] show ?case by (simp add: kv)
qed

lemma elements_Inr_depth:
  assumes IH: "\<And>v p d acc s acc'. analyze_recursive n v p d acc = Inr (s, acc') \<Longrightarrow> tree_depth v < n"
  shows "analyze_elements n xs p d i es acc = Inr (es', acc') \<Longrightarrow> \<forall>x\<in>set xs. tree_depth x < n"
proof (induction xs arbitrary: i es acc)
  case Nil
  then show ?case by simp
next
  case (Cons x rest)
  from Cons.prems obtain s acc1 where
    a: "analyze_recursive n x (child_index_path p i) (d + 1) acc = Inr (s, acc1)" and
    b: "analyze_elements n rest p d (Suc i) (es @ [s]) acc1 = Inr (es', acc')"
    by (rule analyze_elements_Cons_Inr)
  from IH[OF a] Cons.IH[OF b] show ?case by simp
qed

lemma walk_Inr_depth:
  "analyze_recursive n v p d acc = Inr (s, acc') \<Longrightarrow> tree_depth v < n"
proof (induction n arbitrary: v p d acc s acc')
  case 0
  then show ?case by simp
next
  case (Suc n)
  show ?case
  proof (cases "is_leaf v")
    case True
    then show ?thesis by (simp add: tree_depth_leaf)
  next
    case False
    show ?thesis
    proof (cases v)
      case (PDict kvs)
      from Suc.prems obtain ks where
        a: "analyze_items n kvs p d {} [] (bump_objects (visit acc d)) = Inr (ks, acc')"
        unfolding PDict by (rule walk_dict_Inr)
      from items_Inr_depth[OF Suc.IH a] show ?thesis by (simp add: PDict foldr_max_less)
    next
      case (PList xs)
      from Suc.prems obtain es where
        a: "analyze_elements n xs p d 0 [] (bump_arrays (visit acc d)) = Inr (es, acc')"
        unfolding PList by (rule walk_list_Inr)
      from elements_Inr_depth[OF Suc.IH a] show ?thesis by (simp add: PList foldr_max_less)
    qed (use False in simp_all)
  qed
qed

lemma walk_raises_iff:
  "analyze_recursive n v p d acc = Inl RecursionError \<longleftrightarrow> n \<le> tree_depth v"
proof
  assume "analyze_recursive n v p d acc = Inl RecursionError"
  show "n \<le> tree_depth v"
  proof (rule ccontr)
    assume "\<not> n \<le> tree_depth v"
    then have "tree_depth v < n" by simp
    from walk_succeeds[OF this, of p d acc] \<open>analyze_recursive n v p d acc = Inl RecursionError\<close>
    show False by auto
  qed
next
  assume le: "n \<le> tree_depth v"
  show "analyze_recursive n v p d acc = Inl RecursionError"
  proof (cases "analyze_recursive n v p d acc")
    case (Inl e)
    then show ?thesis by (cases e) simp
  next
    case (Inr r)
    obtain s acc' where "r = (s, acc')" by (cases r)
    with Inr walk_Inr_depth have "tree_depth v < n" by blast
    with le show ?thesis by simp
  qed
qed

subsection \<open>No duplicate is reported for a dict\<close>

text \<open>
  The loop over \<open>items()\<close> meets every key of a dict once, so the test against
  \<open>seen_keys\<close> never succeeds.
\<close>

lemma duplicates_helpers [simp]:
  "duplicates (visit acc d) = duplicates acc"
  "duplicates (bump_objects acc) = duplicates acc"
  "duplicates (bump_arrays acc) = duplicates acc"
  "duplicates (count_leaf t acc) = duplicates acc"
  by (simp_all add: visit_def bump_objects_def bump_arrays_def count_leaf_def)

lemma items_no_duplicates:
  assumes IH: "\<And>v p d acc s acc'. wf_pyval v \<Longrightarrow>
     analyze_recursive n v p d acc = Inr (s, acc') \<Longrightarrow> duplicates acc' = duplicates acc"
  shows "analyze_items n kvs p d seen ks acc = Inr (ks', acc') \<Longrightarrow>
     distinct (map fst kvs) \<Longrightarrow> set (map fst kvs) \<inter> seen = {} \<Longrightarrow>
     list_all (\<lambda>kv. wf_pyval (snd kv)) kvs \<Longrightarrow> duplicates acc' = duplicates acc"
proof (induction kvs arbitrary: seen ks acc)
  case Nil
  then show ?case by simp
next
  case (Cons kv rest)
  obtain k v where kv: "kv = (k, v)" by (cases kv)
  from Cons.prems(1) obtain s acc1 where
    a: "analyze_recursive n v (child_key_path p k) (d + 1) (note_key p k seen acc) = Inr (s, acc1)" and
    b: "analyze_items n rest p d (seen_after k seen) (dict_setitem ks k s) acc1 = Inr (ks', acc')"
    unfolding kv by (rule analyze_items_Cons_Inr)
  from Cons.prems(3) have fresh: "k \<notin> seen" by (auto simp: kv)
  from Cons.prems(4) have "wf_pyval v" by (simp add: kv)
  from IH[OF this a] fresh have c: "duplicates acc1 = duplicates acc"
    by (simp add: note_key_def)
  have "set (map fst rest) \<inter> seen_after k seen = {}"
    using Cons.prems(2,3) fresh by (auto simp: kv seen_after_def)
  with Cons.IH[OF b] Cons.prems(2,4) c show ?case by (simp add: kv)
qed

lemma elements_no_duplicates:
  assumes IH: "\<And>v p d acc s acc'. wf_pyval v \<Longrightarrow>
     analyze_recursive n v p d acc = Inr (s, acc') \<Longrightarrow> duplicates acc' = duplicates acc"
  shows "analyze_elements n xs p d i es acc = Inr (es', acc') \<Longrightarrow>
     list_all wf_pyval xs \<Longrightarrow> duplicates acc' = duplicates acc"
proof (induction xs arbitrary: i es acc)
  case Nil
  then show ?case by simp
next
  case (Cons x rest)
  from Cons.prems(1) obtain s acc1 where
    a: "analyze_recursive n x (child_index_path p i) (d + 1) acc = Inr (s, acc1)" and
    b: "analyze_elements n rest p d (Suc i) (es @ [s]) acc1 = Inr (es', acc')"
    by (rule analyze_elements_Cons_Inr)
  from Cons.prems(2) have "wf_pyval x" "list_all wf_pyval rest" by simp_all
  with IH[OF _ a] Cons.IH[OF b] show ?case by simp
qed

lemma walk_no_duplicates:
  "wf_pyval v \<Longrightarrow> analyze_recursive n v p d acc = Inr (s, acc') \<Longrightarrow>
     duplicates acc' = duplicates acc"
proof (induction n arbitrary: v p d acc s acc')
  case 0
  then show ?case by simp
next
  case (Suc n)
  show ?case
  proof (cases "is_leaf v")
    case True
    with Suc.prems(2) show ?thesis by (auto simp: walk_leaf)
  next
    case False
    show ?thesis
    proof (cases v)
      case (PDict kvs)
      from Suc.prems(2) obtain ks where
        a: "analyze_items n kvs p d {} [] (bump_objects (visit acc d)) = Inr (ks, acc')"
        unfolding PDict by (rule walk_dict_Inr)
      from Suc.prems(1) have "distinct (map fst kvs)" "list_all (\<lambda>kv. wf_pyval (snd kv)) kvs"
        by (simp_all add: PDict)
      with items_no_duplicates[OF Suc.IH a] show ?thesis by simp
    next
      case (PList xs)
      from Suc.prems(2) obtain es where
        a: "analyze_elements n xs p d 0 [] (bump_arrays (visit acc d)) = Inr (es, acc')"
        unfolding PList by (rule walk_list_Inr)
      from Suc.prems(1) have "list_all wf_pyval xs" by (simp add: PList)
      with elements_no_duplicates[OF Suc.IH a] show ?thesis by simp
    qed (use False in simp_all)
  qed
qed

subsection \<open>What \<open>json.load\<close> returns is a well-formed value\<close>

lemma dict_setitem_keys:
  "map fst (dict_setitem d k v) = (if k \<in> set (map fst d) then map fst d else map fst d @ [k])"
  by (induction d k v rule: dict_setitem.induct) auto

lemma dict_setitem_values:
  "set (map snd (dict_setitem d k v)) \<subseteq> insert v (set (map snd d))"
  by (induction d k v rule: dict_setitem.induct) auto

lemma foldl_setitem_distinct:
  "distinct (map fst d) \<Longrightarrow>
     distinct (map fst (foldl (\<lambda>d kv. dict_setitem d (fst kv) (snd kv)) d ps))"
  by (induction ps arbitrary: d) (simp_all add: dict_setitem_keys)

lemma foldl_setitem_values:
  "set (map snd (foldl (\<lambda>d kv. dict_setitem d (fst kv) (snd kv)) d ps))
     \<subseteq> set (map snd d) \<union> set (map snd ps)"
proof (induction ps arbitrary: d)
  case Nil
  then show ?case by simp
next
  case (Cons kv ps)
  from Cons.IH[of "dict_setitem d (fst kv) (snd kv)"] dict_setitem_values[of d "fst kv" "snd kv"]
  show ?case by auto
qed

lemma json_load_wf: "wf_pyval (json_load j)"
proof (induction j)
  case (JObject members)
  have "distinct (map fst (dict_of_pairs (map (\<lambda>kv. (fst kv, json_load (snd kv))) members)))"
    unfolding dict_of_pairs_def by (rule foldl_setitem_distinct) simp
  moreover have "\<forall>v\<in>set (map snd (dict_of_pairs (map (\<lambda>kv. (fst kv, json_load (snd kv))) members))). wf_pyval v"
  proof
    fix v
    assume "v \<in> set (map snd (dict_of_pairs (map (\<lambda>kv. (fst kv, json_load (snd kv))) members)))"
    with foldl_setitem_values[of "[]" "map (\<lambda>kv. (fst kv, json_load (snd kv))) members"]
    have "v \<in> set (map snd (map (\<lambda>kv. (fst kv, json_load (snd kv))) members))"
      unfolding dict_of_pairs_def by auto
    then obtain kv where "kv \<in> set members" "v = json_load (snd kv)" by auto
    with JObject show "wf_pyval v" by (cases kv) auto
  qed
  ultimately show ?case by (auto simp: list_all_iff)
next
  case (JArray xs)
  then show ?case by (simp add: list_all_iff)
qed simp_all

text \<open>
  Hence no document, however its names repeat, makes the analyzer report a duplicate key.
\<close>

lemma analyze_reports_no_duplicate:
  assumes "wf_pyval data"
  shows "duplicate_keys (results (analyze frames data self)) = Some []"
proof (cases "analyze_recursive frames data ''root'' 0 init_acc")
  case (Inl e)
  then show ?thesis by (simp add: analyze_def)
next
  case (Inr r)
  obtain s acc where r: "r = (s, acc)" by (cases r)
  from walk_no_duplicates[OF assms Inr[unfolded r]] have "duplicates acc = []"
    by (simp add: init_acc_def)
  with Inr r show ?thesis by (simp add: analyze_def)
qed

lemma analyze_json_load_no_duplicate:
  "duplicate_keys (results (analyze frames (json_load j) self)) = Some []"
  by (rule analyze_reports_no_duplicate) (rule json_load_wf)

subsection \<open>The summary of an array\<close>

lemma array_summary_sel [simp]:
  "stype (array_summary t b es) = t"
  "is_empty (array_summary t b es) = b"
  "keys (array_summary t b es) = None"
  "element_types (array_summary t b es) = Some (sort (remdups (map stype es)))"
  by (simp_all add: array_summary_def Let_def)

lemma walk_stype:
  "analyze_recursive n v p d acc = Inr (s, acc') \<Longrightarrow> stype s = get_value_type v"
proof (cases n)
  case 0
  assume "analyze_recursive n v p d acc = Inr (s, acc')"
  with 0 show ?thesis by simp
next
  case (Suc m)
  assume a: "analyze_recursive n v p d acc = Inr (s, acc')"
  show ?thesis
  proof (cases "is_leaf v")
    case True
    with a Suc show ?thesis by (auto simp: walk_leaf)
  next
    case False
    show ?thesis
    proof (cases v)
      case (PDict kvs)
      with a Suc show ?thesis by (auto elim: walk_dict_Inr)
    next
      case (PList xs)
      with a Suc show ?thesis by (auto elim: walk_list_Inr)
    qed (use False in simp_all)
  qed
qed

lemma elements_result:
  "analyze_elements n xs p d i es acc = Inr (es', acc') \<Longrightarrow>
     \<exists>new. es' = es @ new
        \<and> list_all2 (\<lambda>x e. \<exists>p' acc0 acc1. analyze_recursive n x p' (d + 1) acc0 = Inr (e, acc1))
             xs new"
proof (induction xs arbitrary: i es acc)
  case Nil
  then show ?case by simp
next
  case (Cons x rest)
  from Cons.prems obtain s acc1 where
    a: "analyze_recursive n x (child_index_path p i) (d + 1) acc = Inr (s, acc1)" and
    b: "analyze_elements n rest p d (Suc i) (es @ [s]) acc1 = Inr (es', acc')"
    by (rule analyze_elements_Cons_Inr)
  from Cons.IH[OF b] obtain new where
    c: "es' = (es @ [s]) @ new" and
    e: "list_all2 (\<lambda>x e. \<exists>p' acc0 acc1. analyze_recursive n x p' (d + 1) acc0 = Inr (e, acc1))
          rest new"
    by blast
  from a have "\<exists>p' acc0 acc1. analyze_recursive n x p' (d + 1) acc0 = Inr (s, acc1)" by blast
  with e have "list_all2 (\<lambda>x e. \<exists>p' acc0 acc1. analyze_recursive n x p' (d + 1) acc0 = Inr (e, acc1))
          (x # rest) (s # new)" by simp
  with c show ?case by simp
qed

lemma array_summary_element_summary:
  "element_summary (array_summary t b es) =
     (if es = [] then None
      else if length (sort (remdups (map stype es))) = 1 then
        (if \<forall>e\<in>set es. summary_eq e (hd es) then Some (hd es)
         else Some (Summary (hd (sort (remdups (map stype es)))) None None None False))
      else None)"
proof (cases "es = []")
  case True
  then show ?thesis by (simp add: array_summary_def Let_def)
next
  case False
  then have a: "es ! 0 = hd es" by (simp add: hd_conv_nth)
  from False have "sort (remdups (map stype es)) \<noteq> []"
    by (metis length_0_conv length_sort map_is_Nil_conv remdups_eq_nil_iff)
  then have b: "sort (remdups (map stype es)) ! 0 = hd (sort (remdups (map stype es)))"
    by (simp add: hd_conv_nth)
  from False show ?thesis
    unfolding array_summary_def Let_def a b
    by (simp add: list_all_iff)
qed

subsection \<open>One call of the cleaning function, by the kind of value\<close>

lemma clean_dict:
  "clean_none_values_report (Suc n) (PDict kvs) =
     (case clean_items n kvs [] of
        Inl e \<Rightarrow> Inl e
      | Inr c \<Rightarrow>
          Inr (PDict (if dict_contains kvs ''duplicate_keys''
                         \<and> \<not> dict_contains c ''duplicate_keys''
                      then dict_setitem c ''duplicate_keys'' (PList [])
                      else c)))"
  by (simp split: sum.split)

lemma clean_list_unfold:
  "clean_none_values_report (Suc n) (PList xs) =
     (case clean_list n xs of Inl e \<Rightarrow> Inl e | Inr ys \<Rightarrow> Inr (PList ys))"
  by (simp split: sum.split)

lemma clean_leaf: "is_leaf v \<Longrightarrow> clean_none_values_report (Suc n) v = Inr v"
  by (cases v) simp_all

declare clean_none_values_report.simps(2) [simp del]

lemma clean_dict_Inr:
  assumes "clean_none_values_report (Suc n) (PDict kvs) = Inr w"
  obtains c where
    "clean_items n kvs [] = Inr c"
    "w = PDict (if dict_contains kvs ''duplicate_keys'' \<and> \<not> dict_contains c ''duplicate_keys''
                then dict_setitem c ''duplicate_keys'' (PList []) else c)"
  using assms by (auto simp: clean_dict split: sum.splits)

lemma clean_list_Inr:
  assumes "clean_none_values_report (Suc n) (PList xs) = Inr w"
  obtains ys where "clean_list n xs = Inr ys" "w = PList ys"
  using assms by (auto simp: clean_list_unfold split: sum.splits)

lemma clean_items_Cons_Inr:
  assumes "clean_items n ((k, v) # rest) c = Inr out"
  obtains (dropped) "v = PNone" "clean_items n rest c = Inr out"
  | (kept) cv where "v \<noteq> PNone" "clean_none_values_report n v = Inr cv"
      "clean_items n rest (dict_setitem c k cv) = Inr out"
  using assms by (auto split: sum.splits if_splits)

lemma clean_list_Cons_Inr:
  assumes "clean_list n (x # rest) = Inr ys"
  obtains y ys' where "clean_none_values_report n x = Inr y" "clean_list n rest = Inr ys'"
    "ys = y # ys'"
  using assms by (auto split: sum.splits)

lemma clean_keeps_kind:
  assumes "clean_none_values_report n v = Inr w"
  shows "w = PNone \<longleftrightarrow> v = PNone"
proof (cases n)
  case 0
  with assms show ?thesis by simp
next
  case (Suc m)
  show ?thesis
  proof (cases "is_leaf v")
    case True
    with assms Suc show ?thesis by (simp add: clean_leaf)
  next
    case False
    show ?thesis
    proof (cases v)
      case (PDict kvs)
      with assms Suc show ?thesis by (auto elim!: clean_dict_Inr)
    next
      case (PList xs)
      with assms Suc show ?thesis by (auto elim!: clean_list_Inr)
    qed (use False in simp_all)
  qed
qed

subsection \<open>Operations on dicts\<close>

lemma dict_contains_map_of: "dict_contains d k \<longleftrightarrow> map_of d k \<noteq> None"
  by (simp add: dict_contains_def map_of_eq_None_iff)

lemma map_of_dict_setitem: "map_of (dict_setitem d k v) = (map_of d)(k \<mapsto> v)"
  by (induction d k v rule: dict_setitem.induct) auto

lemma dict_setitem_list_all:
  "list_all P d \<Longrightarrow> P (k, v) \<Longrightarrow> list_all P (dict_setitem d k v)"
  by (induction d k v rule: dict_setitem.induct) auto

lemma dict_setitem_fresh:
  "k \<notin> set (map fst d) \<Longrightarrow> dict_setitem d k v = d @ [(k, v)]"
  by (induction d k v rule: dict_setitem.induct) auto

subsection \<open>The cleaned value holds no None under a key\<close>

lemma clean_items_none_free:
  assumes IH: "\<And>v w. clean_none_values_report n v = Inr w \<Longrightarrow> none_free w"
  shows "clean_items n kvs c = Inr out \<Longrightarrow>
     list_all (\<lambda>kv. snd kv \<noteq> PNone \<and> none_free (snd kv)) c \<Longrightarrow>
     list_all (\<lambda>kv. snd kv \<noteq> PNone \<and> none_free (snd kv)) out"
proof (induction kvs arbitrary: c)
  case Nil
  then show ?case by simp
next
  case (Cons kv rest)
  obtain k v where kv: "kv = (k, v)" by (cases kv)
  from Cons.prems(1)[unfolded kv] show ?case
  proof (cases rule: clean_items_Cons_Inr)
    case dropped
    from Cons.IH[OF dropped(2) Cons.prems(2)] show ?thesis .
  next
    case (kept cv)
    from kept(1,2) have "cv \<noteq> PNone" by (simp add: clean_keeps_kind)
    moreover from IH[OF kept(2)] have "none_free cv" .
    ultimately have "list_all (\<lambda>kv. snd kv \<noteq> PNone \<and> none_free (snd kv)) (dict_setitem c k cv)"
      using Cons.prems(2) by (intro dict_setitem_list_all) simp_all
    from Cons.IH[OF kept(3) this] show ?thesis .
  qed
qed

lemma clean_list_none_free:
  assumes IH: "\<And>v w. clean_none_values_report n v = Inr w \<Longrightarrow> none_free w"
  shows "clean_list n xs = Inr ys \<Longrightarrow> list_all none_free ys"
proof (induction xs arbitrary: ys)
  case Nil
  then show ?case by auto
next
  case (Cons x rest)
  from Cons.prems obtain y ys' where
    a: "clean_none_values_report n x = Inr y" and b: "clean_list n rest = Inr ys'" and
    c: "ys = y # ys'"
    by (rule clean_list_Cons_Inr)
  from IH[OF a] Cons.IH[OF b] c show ?case by simp
qed

lemma clean_none_free:
  "clean_none_values_report n v = Inr w \<Longrightarrow> none_free w"
proof (induction n arbitrary: v w)
  case 0
  then show ?case by simp
next
  case (Suc n)
  show ?case
  proof (cases "is_leaf v")
    case True
    with Suc.prems have "w = v" by (simp add: clean_leaf)
    with True show ?thesis by (cases v) simp_all
  next
    case False
    show ?thesis
    proof (cases v)
      case (PDict kvs)
      from Suc.prems obtain c where
        a: "clean_items n kvs [] = Inr c" and
        w: "w = PDict (if dict_contains kvs ''duplicate_keys'' \<and> \<not> dict_contains c ''duplicate_keys''
                then dict_setitem c ''duplicate_keys'' (PList []) else c)"
        unfolding PDict by (rule clean_dict_Inr)
      from clean_items_none_free[OF Suc.IH a] have
        c: "list_all (\<lambda>kv. snd kv \<noteq> PNone \<and> none_free (snd kv)) c" by simp
      then have "list_all (\<lambda>kv. snd kv \<noteq> PNone \<and> none_free (snd kv))
                   (dict_setitem c ''duplicate_keys'' (PList []))"
        by (rule dict_setitem_list_all) simp
      with c w show ?thesis by simp
    next
      case (PList xs)
      from Suc.prems obtain ys where a: "clean_list n xs = Inr ys" and w: "w = PList ys"
        unfolding PList by (rule clean_list_Inr)
      from clean_list_none_free[OF Suc.IH a] w show ?thesis by simp
    qed (use False in simp_all)
  qed
qed

subsection \<open>None stays in lists\<close>

lemma clean_list_keeps_None:
  "clean_list n xs = Inr ys \<Longrightarrow> list_all2 (\<lambda>x y. x = PNone \<longleftrightarrow> y = PNone) xs ys"
proof (induction xs arbitrary: ys)
  case Nil
  then show ?case by auto
next
  case (Cons x rest)
  from Cons.prems obtain y ys' where
    a: "clean_none_values_report n x = Inr y" and b: "clean_list n rest = Inr ys'" and
    c: "ys = y # ys'"
    by (rule clean_list_Cons_Inr)
  from clean_keeps_kind[OF a] Cons.IH[OF b] c show ?case by simp
qed

subsection \<open>A well-formed value without None under a key is returned unchanged\<close>

lemma clean_items_identity:
  assumes IH: "\<And>v w. clean_none_values_report n v = Inr w \<Longrightarrow> wf_pyval v \<Longrightarrow> none_free v \<Longrightarrow> w = v"
  shows "clean_items n kvs c = Inr out \<Longrightarrow> distinct (map fst kvs) \<Longrightarrow>
     set (map fst kvs) \<inter> set (map fst c) = {} \<Longrightarrow>
     list_all (\<lambda>kv. wf_pyval (snd kv)) kvs \<Longrightarrow>
     list_all (\<lambda>kv. snd kv \<noteq> PNone \<and> none_free (snd kv)) kvs \<Longrightarrow> out = c @ kvs"
proof (induction kvs arbitrary: c)
  case Nil
  then show ?case by simp
next
  case (Cons kv rest)
  obtain k v where kv: "kv = (k, v)" by (cases kv)
  from Cons.prems(5) have v: "v \<noteq> PNone" "none_free v" by (simp_all add: kv)
  from Cons.prems(4) have wf: "wf_pyval v" by (simp add: kv)
  from Cons.prems(3) have fresh: "k \<notin> set (map fst c)" by (auto simp: kv)
  from Cons.prems(1)[unfolded kv] show ?case
  proof (cases rule: clean_items_Cons_Inr)
    case dropped
    with v show ?thesis by simp
  next
    case (kept cv)
    from IH[OF kept(2) wf v(2)] have cv: "cv = v" .
    from fresh have s: "dict_setitem c k cv = c @ [(k, v)]" by (simp add: dict_setitem_fresh cv)
    have "set (map fst rest) \<inter> set (map fst (c @ [(k, v)])) = {}"
      using Cons.prems(2,3) by (auto simp: kv)
    with Cons.IH[OF kept(3)[unfolded s]] Cons.prems(2,4,5) show ?thesis by (simp add: kv)
  qed
qed

lemma clean_list_identity:
  assumes IH: "\<And>v w. clean_none_values_report n v = Inr w \<Longrightarrow> wf_pyval v \<Longrightarrow> none_free v \<Longrightarrow> w = v"
  shows "clean_list n xs = Inr ys \<Longrightarrow> list_all wf_pyval xs \<Longrightarrow> list_all none_free xs \<Longrightarrow> ys = xs"
proof (induction xs arbitrary: ys)
  case Nil
  then show ?case by auto
next
  case (Cons x rest)
  from Cons.prems(1) obtain y ys' where
    a: "clean_none_values_report n x = Inr y" and b: "clean_list n rest = Inr ys'" and
    c: "ys = y # ys'"
    by (rule clean_list_Cons_Inr)
  from Cons.prems(2,3) have "wf_pyval x" "none_free x" "list_all wf_pyval rest" "list_all none_free rest"
    by simp_all
  with IH[OF a] Cons.IH[OF b] c show ?case by simp
qed

lemma clean_identity:
  "clean_none_values_report n v = Inr w \<Longrightarrow> wf_pyval v \<Longrightarrow> none_free v \<Longrightarrow> w = v"
proof (induction n arbitrary: v w)
  case 0
  then show ?case by simp
next
  case (Suc n)
  show ?case
  proof (cases "is_leaf v")
    case True
    with Suc.prems(1) show ?thesis by (simp add: clean_leaf)
  next
    case False
    show ?thesis
    proof (cases v)
      case (PDict kvs)
      from Suc.prems(1) obtain c where
        a: "clean_items n kvs [] = Inr c" and
        w: "w = PDict (if dict_contains kvs ''duplicate_keys'' \<and> \<not> dict_contains c ''duplicate_keys''
                then dict_setitem c ''duplicate_keys'' (PList []) else c)"
        unfolding PDict by (rule clean_dict_Inr)
      from Suc.prems(2,3) have
        "distinct (map fst kvs)" "list_all (\<lambda>kv. wf_pyval (snd kv)) kvs"
        "list_all (\<lambda>kv. snd kv \<noteq> PNone \<and> none_free (snd kv)) kvs"
        by (simp_all add: PDict)
      with clean_items_identity[OF Suc.IH a] have "c = kvs" by simp
      with w show ?thesis by (simp add: PDict)
    next
      case (PList xs)
      from Suc.prems(1) obtain ys where a: "clean_list n xs = Inr ys" and w: "w = PList ys"
        unfolding PList by (rule clean_list_Inr)
      from Suc.prems(2,3) have "list_all wf_pyval xs" "list_all none_free xs" by (simp_all add: PList)
      with clean_list_identity[OF Suc.IH a] w show ?thesis by (simp add: PList)
    qed (use False in simp_all)
  qed
qed

subsection \<open>What a key of the cleaned dict holds\<close>

lemma clean_items_other_key:
  "clean_items n kvs c = Inr out \<Longrightarrow> k \<notin> set (map fst kvs) \<Longrightarrow> map_of out k = map_of c k"
proof (induction kvs arbitrary: c)
  case Nil
  then show ?case by simp
next
  case (Cons kv rest)
  obtain k' v where kv: "kv = (k', v)" by (cases kv)
  from Cons.prems(2) have ne: "k' \<noteq> k" "k \<notin> set (map fst rest)" by (auto simp: kv)
  from Cons.prems(1)[unfolded kv] show ?case
  proof (cases rule: clean_items_Cons_Inr)
    case dropped
    from Cons.IH[OF dropped(2) ne(2)] show ?thesis .
  next
    case (kept cv)
    from Cons.IH[OF kept(3) ne(2)] ne(1) show ?thesis by (simp add: map_of_dict_setitem)
  qed
qed

lemma clean_items_lookup:
  "clean_items n kvs c = Inr out \<Longrightarrow> distinct (map fst kvs) \<Longrightarrow> map_of kvs k = Some v \<Longrightarrow>
     v \<noteq> PNone \<Longrightarrow> \<exists>cv. clean_none_values_report n v = Inr cv \<and> map_of out k = Some cv"
proof (induction kvs arbitrary: c)
  case Nil
  then show ?case by simp
next
  case (Cons kv rest)
  obtain k' v' where kv: "kv = (k', v')" by (cases kv)
  from Cons.prems(2) have d: "k' \<notin> set (map fst rest)" "distinct (map fst rest)" by (simp_all add: kv)
  show ?case
  proof (cases "k' = k")
    case True
    with Cons.prems(3) have vv: "v' = v" by (simp add: kv)
    from Cons.prems(1)[unfolded kv] show ?thesis
    proof (cases rule: clean_items_Cons_Inr)
      case dropped
      with vv Cons.prems(4) show ?thesis by simp
    next
      case (kept cv)
      from clean_items_other_key[OF kept(3) d(1)] kept(2) True vv show ?thesis
        by (simp add: map_of_dict_setitem)
    qed
  next
    case False
    with Cons.prems(3) have m: "map_of rest k = Some v" by (simp add: kv)
    from Cons.prems(1)[unfolded kv] show ?thesis
    proof (cases rule: clean_items_Cons_Inr)
      case dropped
      from Cons.IH[OF dropped(2) d(2) m Cons.prems(4)] show ?thesis .
    next
      case (kept cv)
      from Cons.IH[OF kept(3) d(2) m Cons.prems(4)] show ?thesis .
    qed
  qed
qed

subsection \<open>The body of the report's try block\<close>

lemma sort_duplicates_fields [simp]:
  "duplicate_keys (sort_duplicates rd)
     = map_option (sort_key (\<lambda>d. (path d, key d))) (duplicate_keys rd)"
  "statistics (sort_duplicates rd) = statistics rd"
  "structure_summary (sort_duplicates rd) = structure_summary rd"
  by (simp_all add: sort_duplicates_def split: option.split list.split)

lemma py_of_results_keys:
  "distinct (map fst (dict_items (py_of_results r)))"
  by (simp add: py_of_results_def)

lemma py_of_results_lookup:
  "map_of (dict_items (py_of_results r)) ''statistics'' = Some (py_opt py_of_stats (statistics r))"
  "map_of (dict_items (py_of_results r)) ''duplicate_keys''
     = Some (py_opt (\<lambda>ds. PList (map py_of_dup ds)) (duplicate_keys r))"
  "map_of (dict_items (py_of_results r)) ''structure''
     = Some (py_opt py_of_summary (structure_summary r))"
  by (simp_all add: py_of_results_def)

lemma py_of_stats_plain [simp]:
  "wf_pyval (py_of_stats st)" "none_free (py_of_stats st)" "py_of_stats st \<noteq> PNone"
  by (simp_all add: py_of_stats_def)

lemma py_of_dups_plain [simp]:
  "wf_pyval (PList (map py_of_dup ds))" "none_free (PList (map py_of_dup ds))"
  by (simp_all add: py_of_dup_def list_all_iff)

lemma report_try_Inr:
  assumes "report_try frames rd = Inr report"
  obtains m c where
    "frames = Suc m"
    "clean_items m (dict_items (py_of_results (sort_duplicates rd))) [] = Inr c"
    "report =
       PDict
         (let c0 = (if \<not> dict_contains c ''duplicate_keys''
                    then dict_setitem c ''duplicate_keys'' (PList []) else c);
              c1 = (if \<not> dict_contains c0 ''filepath'' \<and> truthy_str (filepath rd)
                    then dict_setitem c0 ''filepath'' (py_opt PStr (filepath rd)) else c0)
          in if truthy_str (analysis_error rd) \<and> \<not> dict_contains c1 ''analysis_error''
             then dict_setitem c1 ''analysis_error'' (py_opt PStr (analysis_error rd))
             else c1)"
proof -
  obtain kvs where E: "py_of_results (sort_duplicates rd) = PDict kvs"
    and dk: "dict_contains kvs ''duplicate_keys''"
    by (simp add: py_of_results_def dict_contains_def)
  from assms obtain cleaned where
    cl: "clean_none_values_report frames (PDict kvs) = Inr cleaned" and
    rep: "report =
       PDict
         (let c1 = (if \<not> dict_contains (dict_items cleaned) ''filepath'' \<and> truthy_str (filepath rd)
                    then dict_setitem (dict_items cleaned) ''filepath'' (py_opt PStr (filepath rd))
                    else dict_items cleaned)
          in if truthy_str (analysis_error rd) \<and> \<not> dict_contains c1 ''analysis_error''
             then dict_setitem c1 ''analysis_error'' (py_opt PStr (analysis_error rd))
             else c1)"
    by (auto simp: report_try_def E Let_def split: sum.splits)
  from cl obtain m where m: "frames = Suc m" by (cases frames) simp_all
  from cl[unfolded m] obtain c where
    a: "clean_items m kvs [] = Inr c" and
    w: "cleaned = PDict (if dict_contains kvs ''duplicate_keys'' \<and> \<not> dict_contains c ''duplicate_keys''
                then dict_setitem c ''duplicate_keys'' (PList []) else c)"
    by (rule clean_dict_Inr)
  from w dk have "dict_items cleaned =
     (if \<not> dict_contains c ''duplicate_keys'' then dict_setitem c ''duplicate_keys'' (PList []) else c)"
    by simp
  with rep have "report =
       PDict
         (let c0 = (if \<not> dict_contains c ''duplicate_keys''
                    then dict_setitem c ''duplicate_keys'' (PList []) else c);
              c1 = (if \<not> dict_contains c0 ''filepath'' \<and> truthy_str (filepath rd)
                    then dict_setitem c0 ''filepath'' (py_opt PStr (filepath rd)) else c0)
          in if truthy_str (analysis_error rd) \<and> \<not> dict_contains c1 ''analysis_error''
             then dict_setitem c1 ''analysis_error'' (py_opt PStr (analysis_error rd))
             else c1)"
    by (simp add: Let_def)
  with m a E that show ?thesis by simp
qed

lemma report_try_field:
  assumes ok: "report_try frames rd = Inr report"
    and look: "map_of (dict_items (py_of_results (sort_duplicates rd))) K = Some v"
    and v: "v \<noteq> PNone" "wf_pyval v" "none_free v"
    and K: "K \<noteq> ''filepath''" "K \<noteq> ''analysis_error''"
  shows "dict_get report K = Some v"
proof -
  from ok obtain m c where
    a: "clean_items m (dict_items (py_of_results (sort_duplicates rd))) [] = Inr c" and
    rep: "report =
       PDict
         (let c0 = (if \<not> dict_contains c ''duplicate_keys''
                    then dict_setitem c ''duplicate_keys'' (PList []) else c);
              c1 = (if \<not> dict_contains c0 ''filepath'' \<and> truthy_str (filepath rd)
                    then dict_setitem c0 ''filepath'' (py_opt PStr (filepath rd)) else c0)
          in if truthy_str (analysis_error rd) \<and> \<not> dict_contains c1 ''analysis_error''
             then dict_setitem c1 ''analysis_error'' (py_opt PStr (analysis_error rd))
             else c1)"
    by (rule report_try_Inr)
  from clean_items_lookup[OF a py_of_results_keys look v(1)] obtain cv where
    cv: "clean_none_values_report m v = Inr cv" and l: "map_of c K = Some cv"
    by blast
  from clean_identity[OF cv v(2,3)] l have l': "map_of c K = Some v" by simp
  then have "K = ''duplicate_keys'' \<Longrightarrow> dict_contains c ''duplicate_keys''"
    by (simp add: dict_contains_map_of)
  with l' K show ?thesis
    unfolding rep dict_get_def
    by (auto simp: Let_def map_of_dict_setitem)
qed

lemma report_try_none_free:
  assumes ok: "report_try frames rd = Inr report"
  shows "none_free report"
proof -
  let ?P = "\<lambda>kv::string \<times> pyval. snd kv \<noteq> PNone \<and> none_free (snd kv)"
  from ok obtain m c where
    a: "clean_items m (dict_items (py_of_results (sort_duplicates rd))) [] = Inr c" and
    rep: "report =
       PDict
         (let c0 = (if \<not> dict_contains c ''duplicate_keys''
                    then dict_setitem c ''duplicate_keys'' (PList []) else c);
              c1 = (if \<not> dict_contains c0 ''filepath'' \<and> truthy_str (filepath rd)
                    then dict_setitem c0 ''filepath'' (py_opt PStr (filepath rd)) else c0)
          in if truthy_str (analysis_error rd) \<and> \<not> dict_contains c1 ''analysis_error''
             then dict_setitem c1 ''analysis_error'' (py_opt PStr (analysis_error rd))
             else c1)"
    by (rule report_try_Inr)
  have c: "list_all ?P c"
  proof (rule clean_items_none_free[OF _ a])
    show "none_free w" if "clean_none_values_report m v = Inr w" for v w
      using that by (rule clean_none_free)
    show "list_all ?P []" by simp
  qed
  have t: "truthy_str x \<Longrightarrow> ?P (k, py_opt PStr x)" for x k
    by (cases x) (simp_all add: truthy_str_def py_opt_def)
  have s: "list_all ?P d \<Longrightarrow> ?P (k, v) \<Longrightarrow> list_all ?P (dict_setitem d k v)" for d k v
    by (rule dict_setitem_list_all)
  define c0 where "c0 = (if \<not> dict_contains c ''duplicate_keys''
                    then dict_setitem c ''duplicate_keys'' (PList []) else c)"
  define c1 where "c1 = (if \<not> dict_contains c0 ''filepath'' \<and> truthy_str (filepath rd)
                    then dict_setitem c0 ''filepath'' (py_opt PStr (filepath rd)) else c0)"
  define c2 where "c2 = (if truthy_str (analysis_error rd) \<and> \<not> dict_contains c1 ''analysis_error''
             then dict_setitem c1 ''analysis_error'' (py_opt PStr (analysis_error rd))
             else c1)"
  have "list_all ?P c0" unfolding c0_def using c by (auto intro: s)
  then have "list_all ?P c1" unfolding c1_def using t by (auto intro: s)
  then have "list_all ?P c2" unfolding c2_def using t by (auto intro: s)
  moreover have "report = PDict c2" unfolding rep c2_def c1_def c0_def by (simp add: Let_def)
  ultimately show ?thesis by simp
qed

section \<open>The classifier\<close>



section \<open>Failure of the walk\<close>

text \<open>
  Claim C6. When the walk raises, \<open>analyze\<close> stores the error text in
  \<open>analysis_error\<close> and resets the analytical fields: \<open>structure\<close>, \<open>statistics\<close>
  and \<open>max_depth\<close> are \<open>None\<close> and \<open>duplicate_keys\<close> is the empty list.
\<close>

theorem analyze_fails_atomically:
  assumes "analyze_recursive frames data ''root'' 0 init_acc = Inl e"
  shows "analysis_error (results (analyze frames data self)) = Some (analysis_error_text e)
         \<and> analysis_error_text e \<noteq> []
         \<and> structure_summary (results (analyze frames data self)) = None
         \<and> statistics (results (analyze frames data self)) = None
         \<and> max_depth (results (analyze frames data self)) = None
         \<and> duplicate_keys (results (analyze frames data self)) = Some []"
  using assms by (simp add: analyze_def analysis_error_text_def)

theorem analyze_fails_atomically_witness:
  "analyze_recursive 2 (PList [PList [PInt 7]]) ''root'' 0 init_acc = Inl RecursionError
   \<and> analysis_error (results (analyze 2 (PList [PList [PInt 7]]) JsonAnalyzer_init))
       = Some (analysis_error_text RecursionError)
   \<and> structure_summary (results (analyze 2 (PList [PList [PInt 7]]) JsonAnalyzer_init)) = None
   \<and> statistics (results (analyze 2 (PList [PList [PInt 7]]) JsonAnalyzer_init)) = None
   \<and> max_depth (results (analyze 2 (PList [PList [PInt 7]]) JsonAnalyzer_init)) = None
   \<and> duplicate_keys (results (analyze 2 (PList [PList [PInt 7]]) JsonAnalyzer_init)) = Some []"
proof -
  have h: "analyze_recursive 2 (PList [PList [PInt 7]]) ''root'' 0 init_acc = Inl RecursionError"
    by code_simp
  from analyze_fails_atomically [OF h, of JsonAnalyzer_init] h show ?thesis by simp
qed

text \<open>
  Claim C10. \<open>root_type\<close> is assigned before the walk starts and the handler does not
  reset it: a result that carries the analyzer's \<open>analysis_error\<close> still carries the
  classification of the root.
\<close>

theorem root_type_survives_failure:
  assumes "analyze_recursive frames data ''root'' 0 init_acc = Inl e"
  shows "root_type (results (analyze frames data self)) = Some (get_value_type data)
         \<and> analysis_error (results (analyze frames data self)) \<noteq> None"
  using assms by (simp add: analyze_def)

theorem root_type_survives_failure_witness:
  "analyze_recursive 1 (PDict [(''k'', PNone)]) ''root'' 0 init_acc = Inl RecursionError
   \<and> root_type (results (analyze 1 (PDict [(''k'', PNone)]) JsonAnalyzer_init)) = Some ''object''
   \<and> analysis_error (results (analyze 1 (PDict [(''k'', PNone)]) JsonAnalyzer_init)) \<noteq> None"
proof -
  have h: "analyze_recursive 1 (PDict [(''k'', PNone)]) ''root'' 0 init_acc = Inl RecursionError"
    by code_simp
  from root_type_survives_failure [OF h, of JsonAnalyzer_init] h show ?thesis by simp
qed

section \<open>Statistics and depth\<close>

text \<open>
  Claim C3. After a successful walk \<open>total_values\<close> is the number of nodes of the tree,
  the root included. It exceeds the sum of the six named counters by the number of nodes
  tagged \<open>unknown\<close>, so the two agree when the tree has no such node.
\<close>

theorem total_values_counts_every_node:
  assumes "analyze_recursive frames data ''root'' 0 init_acc = Inr (s, acc)"
  shows "statistics (results (analyze frames data self)) = Some (stats acc)
         \<and> total_values (stats acc) = int (count_nodes data)
         \<and> total_values (stats acc) = six_sum (stats acc) + int (count_type ''unknown'' data)
         \<and> (count_type ''unknown'' data = 0 \<longrightarrow>
              total_values (stats acc) =
                strings (stats acc) + numbers (stats acc) + booleans (stats acc)
                + nulls (stats acc) + objects (stats acc) + arrays (stats acc))"
proof -
  have a: "statistics (results (analyze frames data self)) = Some (stats acc)"
    using assms by (simp add: analyze_def)
  have b: "total_values (stats acc) = int (count_nodes data)"
    using walk_total_values [OF assms] by (simp add: init_acc_def zero_stats_def)
  have "six_sum (stats acc) + int (count_type ''unknown'' data) = int (count_nodes data)"
    using walk_six_sum [OF assms] by (simp add: init_acc_def zero_stats_def six_sum_def)
  with b have c: "total_values (stats acc) = six_sum (stats acc) + int (count_type ''unknown'' data)"
    by simp
  from a b c show ?thesis by (simp add: six_sum_def)
qed

theorem total_values_counts_every_node_witness:
  "analyze_recursive 2 (PList [PInt 1, PStr ''a'']) ''root'' 0 init_acc
     = Inr (Summary ''array'' None None (Some [''number'', ''string'']) False,
            \<lparr>stats = \<lparr>strings = 1, numbers = 1, booleans = 0, nulls = 0, objects = 0,
                      arrays = 1, total_values = 3\<rparr>,
             duplicates = [], max_depth_tracker = 1\<rparr>)
   \<and> count_type ''unknown'' (PList [PInt 1, PStr ''a'']) = 0
   \<and> int (count_nodes (PList [PInt 1, PStr ''a''])) = 3
   \<and> statistics (results (analyze 2 (PList [PInt 1, PStr ''a'']) JsonAnalyzer_init))
       = Some \<lparr>strings = 1, numbers = 1, booleans = 0, nulls = 0, objects = 0,
               arrays = 1, total_values = 3\<rparr>"
proof -
  have h: "analyze_recursive 2 (PList [PInt 1, PStr ''a'']) ''root'' 0 init_acc
     = Inr (Summary ''array'' None None (Some [''number'', ''string'']) False,
            \<lparr>stats = \<lparr>strings = 1, numbers = 1, booleans = 0, nulls = 0, objects = 0,
                      arrays = 1, total_values = 3\<rparr>,
             duplicates = [], max_depth_tracker = 1\<rparr>)"
    by code_simp
  from total_values_counts_every_node [OF h, of JsonAnalyzer_init] h show ?thesis by simp
qed

text \<open>
  Claim C5. After a successful walk \<open>max_depth\<close> is the length of the longest path from
  the root to a leaf, the root being at depth 0.
\<close>

theorem max_depth_is_longest_path:
  assumes "analyze_recursive frames data ''root'' 0 init_acc = Inr (s, acc)"
  shows "max_depth (results (analyze frames data self)) = Some (int (tree_depth data))"
  using assms walk_max_depth [OF assms] by (simp add: analyze_def init_acc_def)

theorem max_depth_is_longest_path_witness:
  "analyze_recursive 3 (PDict [(''a'', PList [PNone]), (''b'', PBool True)]) ''root'' 0 init_acc
     = Inr (Summary ''object''
              (Some [(''a'', Summary ''array'' None
                               (Some (Summary ''null'' None None None False))
                               (Some [''null'']) False),
                     (''b'', Summary ''boolean'' None None None False)])
              None None False,
            \<lparr>stats = \<lparr>strings = 0, numbers = 0, booleans = 1, nulls = 1, objects = 1,
                      arrays = 1, total_values = 4\<rparr>,
             duplicates = [], max_depth_tracker = 2\<rparr>)
   \<and> max_depth (results (analyze 3 (PDict [(''a'', PList [PNone]), (''b'', PBool True)])
                           JsonAnalyzer_init)) = Some 2"
proof -
  have h: "analyze_recursive 3 (PDict [(''a'', PList [PNone]), (''b'', PBool True)]) ''root'' 0 init_acc
     = Inr (Summary ''object''
              (Some [(''a'', Summary ''array'' None
                               (Some (Summary ''null'' None None None False))
                               (Some [''null'']) False),
                     (''b'', Summary ''boolean'' None None None False)])
              None None False,
            \<lparr>stats = \<lparr>strings = 0, numbers = 0, booleans = 1, nulls = 1, objects = 1,
                      arrays = 1, total_values = 4\<rparr>,
             duplicates = [], max_depth_tracker = 2\<rparr>)"
    by code_simp
  from max_depth_is_longest_path [OF h, of JsonAnalyzer_init] h show ?thesis by simp
qed

section \<open>Duplicate keys\<close>

text \<open>
  Claim C1. The document \<open>{"id":1,"id":2,"tags":["x","y"],"meta":null}\<close> reaches the
  analyzer as the dict that \<open>json.load\<close> builds, in which \<open>id\<close> occurs once with the
  value 2. With three frames or more the analyzer counts one number and six values, and
  reports no duplicate key; the claim expects two numbers, seven values and the duplicate
  \<open>(root, id)\<close>.
\<close>

theorem scenario_document_analysis:
  "json_load scenario_document =
     PDict [(''id'', PInt 2), (''tags'', PList [PStr ''x'', PStr ''y'']), (''meta'', PNone)]
   \<and> statistics (results (analyze (Suc (Suc (Suc n))) (json_load scenario_document)
                            JsonAnalyzer_init))
       = Some \<lparr>strings = 2, numbers = 1, booleans = 0, nulls = 1, objects = 1, arrays = 1,
               total_values = 6\<rparr>
   \<and> max_depth (results (analyze (Suc (Suc (Suc n))) (json_load scenario_document)
                           JsonAnalyzer_init)) = Some 2
   \<and> duplicate_keys (results (analyze (Suc (Suc (Suc n))) (json_load scenario_document)
                                JsonAnalyzer_init)) = Some []"
  by (simp add: scenario_document_def dict_of_pairs_def analyze_def walk_dict walk_list walk_leaf
        init_acc_def zero_stats_def visit_def bump_objects_def bump_arrays_def count_leaf_def
        note_key_def seen_after_def child_key_path_def child_index_path_def array_summary_def)

text \<open>
  Claim C2. The document \<open>{"a": {"x":1,"x":2}, "b": {"x":3,"x":4}}\<close> reaches the
  analyzer as \<open>{"a": {"x": 2}, "b": {"x": 4}}\<close>, and the analyzer reports no duplicate
  key for it; the claim expects the two entries \<open>(root.a, x)\<close> and \<open>(root.b, x)\<close>.
\<close>

theorem scoped_document_analysis:
  "json_load scoped_document =
     PDict [(''a'', PDict [(''x'', PInt 2)]), (''b'', PDict [(''x'', PInt 4)])]
   \<and> duplicate_keys (results (analyze (Suc (Suc (Suc n))) (json_load scoped_document)
                                JsonAnalyzer_init)) = Some []"
  by (simp add: scoped_document_def dict_of_pairs_def analyze_def walk_dict walk_list walk_leaf
        init_acc_def zero_stats_def visit_def bump_objects_def bump_arrays_def count_leaf_def
        note_key_def seen_after_def child_key_path_def child_index_path_def array_summary_def)

section \<open>Arrays\<close>

text \<open>
  Claim C4, as the code has it. For an array node, with \<open>es\<close> the summaries that the walk
  returns for its elements: \<open>element_types\<close> is always present and is the sorted list,
  without repetition, of the tags of the elements, so it is the empty list (not \<open>None\<close>)
  for an empty array, whose \<open>element_summary\<close> is \<open>None\<close> and whose \<open>is_empty\<close> is
  true. With one tag, \<open>element_summary\<close> is the first element's summary when every
  summary equals the first under Python's \<open>==\<close>, and otherwise the summary that carries
  only the tag, with \<open>is_empty\<close> false. With more than one tag it is \<open>None\<close>.
\<close>

theorem array_summary_of_elements:
  assumes "analyze_recursive (Suc n) (PList xs) p d acc = Inr (s, acc')"
  shows "\<exists>es ts.
           list_all2 (\<lambda>x e. stype e = get_value_type x
                        \<and> (\<exists>p' acc0 acc1. analyze_recursive n x p' (d + 1) acc0 = Inr (e, acc1)))
             xs es
         \<and> stype s = ''array''
         \<and> is_empty s = (xs = [])
         \<and> element_types s = Some ts
         \<and> sorted ts \<and> distinct ts \<and> set ts = set (map get_value_type xs)
         \<and> (xs = [] \<longrightarrow> ts = [] \<and> element_summary s = None)
         \<and> (length ts = 1 \<and> (\<forall>e\<in>set es. summary_eq e (hd es)) \<longrightarrow>
               element_summary s = Some (hd es))
         \<and> (length ts = 1 \<and> \<not> (\<forall>e\<in>set es. summary_eq e (hd es)) \<longrightarrow>
               element_summary s = Some (Summary (hd ts) None None None False))
         \<and> (1 < length ts \<longrightarrow> element_summary s = None)"
proof -
  from assms obtain es where
    a: "analyze_elements n xs p d 0 [] (bump_arrays (visit acc d)) = Inr (es, acc')" and
    s: "s = array_summary ''array'' (xs = []) es"
    by (rule walk_list_Inr)
  from elements_result[OF a] have
    r: "list_all2 (\<lambda>x e. \<exists>p' acc0 acc1. analyze_recursive n x p' (d + 1) acc0 = Inr (e, acc1)) xs es"
    by simp
  then have r2: "list_all2 (\<lambda>x e. stype e = get_value_type x
                        \<and> (\<exists>p' acc0 acc1. analyze_recursive n x p' (d + 1) acc0 = Inr (e, acc1))) xs es"
    by (rule list_all2_mono) (auto dest: walk_stype)
  then have types: "map stype es = map get_value_type xs"
    by (induction rule: list_all2_induct) simp_all
  from r have len: "length xs = length es" by (rule list_all2_lengthD)
  define ts where "ts = sort (remdups (map stype es))"
  have t1: "sorted ts" "distinct ts" "set ts = set (map get_value_type xs)"
    by (simp_all add: ts_def types)
  have e0: "xs = [] \<longleftrightarrow> es = []" using len by auto
  have t0: "es = [] \<Longrightarrow> ts = []" by (simp add: ts_def)
  have t2: "es = [] \<Longrightarrow> length ts \<noteq> 1" "es = [] \<Longrightarrow> \<not> 1 < length ts" by (simp_all add: ts_def)
  have es: "element_summary s =
     (if es = [] then None
      else if length ts = 1 then
        (if \<forall>e\<in>set es. summary_eq e (hd es) then Some (hd es)
         else Some (Summary (hd ts) None None None False))
      else None)"
    unfolding s ts_def by (rule array_summary_element_summary)
  have c1: "xs = [] \<longrightarrow> ts = [] \<and> element_summary s = None"
    using es e0 t0 by simp
  have c2: "length ts = 1 \<and> (\<forall>e\<in>set es. summary_eq e (hd es)) \<longrightarrow> element_summary s = Some (hd es)"
    using es t2 by auto
  have c3: "length ts = 1 \<and> \<not> (\<forall>e\<in>set es. summary_eq e (hd es)) \<longrightarrow>
               element_summary s = Some (Summary (hd ts) None None None False)"
    using es t2 by auto
  have c4: "1 < length ts \<longrightarrow> element_summary s = None"
    using es by auto
  have "stype s = ''array''" "is_empty s = (xs = [])" "element_types s = Some ts"
    by (simp_all add: s ts_def)
  with r2 t1 c1 c2 c3 c4 show ?thesis by blast
qed

theorem array_summary_of_elements_witness:
  "analyze_recursive (Suc (Suc 0)) (PList []) ''root'' 0 init_acc
     = Inr (Summary ''array'' None None (Some []) True,
            \<lparr>stats = \<lparr>strings = 0, numbers = 0, booleans = 0, nulls = 0, objects = 0,
                      arrays = 1, total_values = 1\<rparr>,
             duplicates = [], max_depth_tracker = 0\<rparr>)
   \<and> analyze_recursive (Suc (Suc 0)) (PList [PInt 1, PInt 2, PInt 3]) ''root'' 0 init_acc
     = Inr (Summary ''array'' None (Some (Summary ''number'' None None None False))
              (Some [''number'']) False,
            \<lparr>stats = \<lparr>strings = 0, numbers = 3, booleans = 0, nulls = 0, objects = 0,
                      arrays = 1, total_values = 4\<rparr>,
             duplicates = [], max_depth_tracker = 1\<rparr>)
   \<and> analyze_recursive (Suc (Suc (Suc 0)))
        (PList [PDict [(''a'', PInt 1)], PDict [(''b'', PInt 2)]]) ''root'' 0 init_acc
     = Inr (Summary ''array'' None (Some (Summary ''object'' None None None False))
              (Some [''object'']) False,
            \<lparr>stats = \<lparr>strings = 0, numbers = 2, booleans = 0, nulls = 0, objects = 2,
                      arrays = 1, total_values = 5\<rparr>,
             duplicates = [], max_depth_tracker = 2\<rparr>)
   \<and> analyze_recursive (Suc (Suc 0)) (PList [PInt 1, PStr ''a'']) ''root'' 0 init_acc
     = Inr (Summary ''array'' None None (Some [''number'', ''string'']) False,
            \<lparr>stats = \<lparr>strings = 1, numbers = 1, booleans = 0, nulls = 0, objects = 0,
                      arrays = 1, total_values = 3\<rparr>,
             duplicates = [], max_depth_tracker = 1\<rparr>)"
proof -
  have h1: "analyze_recursive (Suc (Suc 0)) (PList []) ''root'' 0 init_acc
     = Inr (Summary ''array'' None None (Some []) True,
            \<lparr>stats = \<lparr>strings = 0, numbers = 0, booleans = 0, nulls = 0, objects = 0,
                      arrays = 1, total_values = 1\<rparr>,
             duplicates = [], max_depth_tracker = 0\<rparr>)"
    by code_simp
  have h2: "analyze_recursive (Suc (Suc 0)) (PList [PInt 1, PInt 2, PInt 3]) ''root'' 0 init_acc
     = Inr (Summary ''array'' None (Some (Summary ''number'' None None None False))
              (Some [''number'']) False,
            \<lparr>stats = \<lparr>strings = 0, numbers = 3, booleans = 0, nulls = 0, objects = 0,
                      arrays = 1, total_values = 4\<rparr>,
             duplicates = [], max_depth_tracker = 1\<rparr>)"
    by code_simp
  have h3: "analyze_recursive (Suc (Suc (Suc 0)))
        (PList [PDict [(''a'', PInt 1)], PDict [(''b'', PInt 2)]]) ''root'' 0 init_acc
     = Inr (Summary ''array'' None (Some (Summary ''object'' None None None False))
              (Some [''object'']) False,
            \<lparr>stats = \<lparr>strings = 0, numbers = 2, booleans = 0, nulls = 0, objects = 2,
                      arrays = 1, total_values = 5\<rparr>,
             duplicates = [], max_depth_tracker = 2\<rparr>)"
    by code_simp
  have h4: "analyze_recursive (Suc (Suc 0)) (PList [PInt 1, PStr ''a'']) ''root'' 0 init_acc
     = Inr (Summary ''array'' None None (Some [''number'', ''string'']) False,
            \<lparr>stats = \<lparr>strings = 1, numbers = 1, booleans = 0, nulls = 0, objects = 0,
                      arrays = 1, total_values = 3\<rparr>,
             duplicates = [], max_depth_tracker = 1\<rparr>)"
    by code_simp
  note uses = array_summary_of_elements [OF h1] array_summary_of_elements [OF h2]
    array_summary_of_elements [OF h3] array_summary_of_elements [OF h4]
  from uses h1 h2 h3 h4 show ?thesis by blast
qed

text \<open>
  The claim as written fails at two inputs. For the empty array \<open>element_types\<close> is the
  empty list, which is present in the summary, not \<open>None\<close>. For
  \<open>[{"a":1,"b":"x"},{"b":"y","a":2}]\<close> the two element summaries list their keys in
  different orders, so they are not equal as ordered structures; Python's \<open>==\<close> on dicts
  does not compare the order, and \<open>element_summary\<close> is the first element's summary, not
  the summary that carries only the tag.
\<close>

theorem array_claim_counterexample:
  "structure_summary (results (analyze 1 (PList []) JsonAnalyzer_init))
     = Some (Summary ''array'' None None (Some []) True)
   \<and> structure_summary
        (results (analyze 2 (PDict [(''a'', PInt 1), (''b'', PStr ''x'')]) JsonAnalyzer_init))
       = Some (Summary ''object''
                 (Some [(''a'', Summary ''number'' None None None False),
                        (''b'', Summary ''string'' None None None False)])
                 None None False)
   \<and> structure_summary
        (results (analyze 2 (PDict [(''b'', PStr ''y''), (''a'', PInt 2)]) JsonAnalyzer_init))
       = Some (Summary ''object''
                 (Some [(''b'', Summary ''string'' None None None False),
                        (''a'', Summary ''number'' None None None False)])
                 None None False)
   \<and> Summary ''object''
         (Some [(''a'', Summary ''number'' None None None False),
                (''b'', Summary ''string'' None None None False)])
         None None False
       \<noteq> Summary ''object''
           (Some [(''b'', Summary ''string'' None None None False),
                  (''a'', Summary ''number'' None None None False)])
           None None False
   \<and> structure_summary
        (results (analyze 3
           (PList [PDict [(''a'', PInt 1), (''b'', PStr ''x'')],
                   PDict [(''b'', PStr ''y''), (''a'', PInt 2)]])
           JsonAnalyzer_init))
       = Some (Summary ''array'' None
                 (Some (Summary ''object''
                          (Some [(''a'', Summary ''number'' None None None False),
                                 (''b'', Summary ''string'' None None None False)])
                          None None False))
                 (Some [''object'']) False)"
  by code_simp

section \<open>The report\<close>

text \<open>
  Claim C7. When report generation does not fall into its handler, the report holds the
  duplicate list sorted by \<open>(path, key)\<close>, a permutation of the analyzer's list, and
  the statistics exactly as the analyzer left them.
\<close>

theorem report_sorts_duplicates:
  assumes "report_try frames (results analyzer) = Inr report"
    and "duplicate_keys (results analyzer) = Some ds"
    and "statistics (results analyzer) = Some st"
  shows "generate_json_report frames analyzer = report
         \<and> dict_get report ''duplicate_keys''
             = Some (PList (map py_of_dup (sort_key (\<lambda>d. (path d, key d)) ds)))
         \<and> sorted (map (\<lambda>d. (path d, key d)) (sort_key (\<lambda>d. (path d, key d)) ds))
         \<and> mset (sort_key (\<lambda>d. (path d, key d)) ds) = mset ds
         \<and> dict_get report ''statistics'' = Some (py_of_stats st)"
proof -
  have a: "generate_json_report frames analyzer = report"
    using assms(1) by (simp add: generate_json_report_def)
  have "map_of (dict_items (py_of_results (sort_duplicates (results analyzer)))) ''duplicate_keys''
          = Some (PList (map py_of_dup (sort_key (\<lambda>d. (path d, key d)) ds)))"
    using assms(2) by (simp add: py_of_results_lookup py_opt_def)
  from report_try_field[OF assms(1) this _ py_of_dups_plain] have
    b: "dict_get report ''duplicate_keys''
             = Some (PList (map py_of_dup (sort_key (\<lambda>d. (path d, key d)) ds)))"
    by simp
  have "map_of (dict_items (py_of_results (sort_duplicates (results analyzer)))) ''statistics''
          = Some (py_of_stats st)"
    using assms(3) by (simp add: py_of_results_lookup py_opt_def)
  from report_try_field[OF assms(1) this] have
    c: "dict_get report ''statistics'' = Some (py_of_stats st)"
    by simp
  from a b c show ?thesis by simp
qed

theorem report_sorts_duplicates_witness:
  "report_try 4 (results ordering_analyzer)
     = Inr (PDict
         [(''max_depth'', PInt 0),
          (''statistics'',
           PDict [(''strings'', PInt 0), (''numbers'', PInt 0), (''booleans'', PInt 0),
                  (''nulls'', PInt 0), (''objects'', PInt 0), (''arrays'', PInt 0),
                  (''total_values'', PInt 0)]),
          (''duplicate_keys'',
           PList [PDict [(''path'', PStr ''root.a''), (''key'', PStr ''y'')],
                  PDict [(''path'', PStr ''root.b''), (''key'', PStr ''x'')]])])
   \<and> duplicate_keys (results ordering_analyzer)
       = Some [\<lparr>path = ''root.b'', key = ''x''\<rparr>, \<lparr>path = ''root.a'', key = ''y''\<rparr>]
   \<and> statistics (results ordering_analyzer) = Some zero_stats
   \<and> dict_get (generate_json_report 4 ordering_analyzer) ''duplicate_keys''
       = Some (PList [PDict [(''path'', PStr ''root.a''), (''key'', PStr ''y'')],
                      PDict [(''path'', PStr ''root.b''), (''key'', PStr ''x'')]])
   \<and> dict_get (generate_json_report 4 ordering_analyzer) ''statistics''
       = Some (py_of_stats zero_stats)"
proof -
  have h1: "report_try 4 (results ordering_analyzer)
     = Inr (PDict
         [(''max_depth'', PInt 0),
          (''statistics'',
           PDict [(''strings'', PInt 0), (''numbers'', PInt 0), (''booleans'', PInt 0),
                  (''nulls'', PInt 0), (''objects'', PInt 0), (''arrays'', PInt 0),
                  (''total_values'', PInt 0)]),
          (''duplicate_keys'',
           PList [PDict [(''path'', PStr ''root.a''), (''key'', PStr ''y'')],
                  PDict [(''path'', PStr ''root.b''), (''key'', PStr ''x'')]])])"
    by code_simp
  have h2: "duplicate_keys (results ordering_analyzer)
       = Some [\<lparr>path = ''root.b'', key = ''x''\<rparr>, \<lparr>path = ''root.a'', key = ''y''\<rparr>]"
    by (simp add: ordering_analyzer_def JsonAnalyzer_init_def)
  have h3: "statistics (results ordering_analyzer) = Some zero_stats"
    by (simp add: ordering_analyzer_def JsonAnalyzer_init_def)
  have s: "sort_key (\<lambda>d. (path d, key d))
             [\<lparr>path = ''root.b'', key = ''x''\<rparr>, \<lparr>path = ''root.a'', key = ''y''\<rparr>]
           = [\<lparr>path = ''root.a'', key = ''y''\<rparr>, \<lparr>path = ''root.b'', key = ''x''\<rparr>]"
    by code_simp
  from report_sorts_duplicates [OF h1 h2 h3] h1 h2 h3 show ?thesis
    by (simp add: s py_of_dup_def)
qed

text \<open>
  A list keeps its length and every \<open>None\<close> among its elements, and a report that did
  not fall into the handler holds no \<open>None\<close> under any key, at any depth
  (\<open>report_try_none_free\<close>).
\<close>

lemma clean_keeps_None_in_lists:
  assumes "clean_none_values_report frames (PList xs) = Inr w"
  shows "\<exists>ys. w = PList ys \<and> length ys = length xs
           \<and> (\<forall>i<length xs. xs ! i = PNone \<longleftrightarrow> ys ! i = PNone)"
proof -
  from assms obtain m where m: "frames = Suc m" by (cases frames) simp_all
  from assms[unfolded m] obtain ys where b: "clean_list m xs = Inr ys" and w: "w = PList ys"
    by (rule clean_list_Inr)
  from clean_list_keeps_None[OF b] have
    "length xs = length ys" "\<forall>i<length xs. xs ! i = PNone \<longleftrightarrow> ys ! i = PNone"
    by (simp_all add: list_all2_conv_all_nth)
  with w show ?thesis by simp
qed

text \<open>
  Claim C9. The claim has report generation prune the fields that hold \<open>None\<close> at the
  top level of the result only, and leave those inside the structural summary as they
  are. The code does not: for the analyzer's result on the number \<open>1\<close>, whose summary
  holds \<open>None\<close> under \<open>keys\<close>, \<open>element_summary\<close> and \<open>element_types\<close>, the
  report's \<open>structure\<close> is not that summary: the three keys are gone and only
  \<open>type\<close> and \<open>is_empty\<close> are left.
\<close>

theorem report_drops_nested_none_fields:
  "structure_summary (results (analyze 1 (PInt 1) JsonAnalyzer_init))
     = Some (Summary ''number'' None None None False)
   \<and> py_of_summary (Summary ''number'' None None None False)
       = PDict [(''type'', PStr ''number''), (''keys'', PNone), (''element_summary'', PNone),
                (''element_types'', PNone), (''is_empty'', PBool False)]
   \<and> dict_get (generate_json_report 3 (analyze 1 (PInt 1) JsonAnalyzer_init)) ''structure''
       = Some (PDict [(''type'', PStr ''number''), (''is_empty'', PBool False)])
   \<and> dict_get (generate_json_report 3 (analyze 1 (PInt 1) JsonAnalyzer_init)) ''structure''
       \<noteq> Some (py_of_summary (Summary ''number'' None None None False))"
  by code_simp

end
